theory Spec2Isabelle
  imports Main "HOL-Library.AList"
begin

section \<open>JavaScript values\<close>

text \<open>
  The values the store handles are the results of \<^verbatim>\<open>JSON.parse\<close> and of property reads on
  them: JSON documents, plus \<^verbatim>\<open>undefined\<close> for a property that is not there. Numbers are
  modelled as integers. An object is the list of its own properties in insertion order.
\<close>

datatype jsvalue =
    JUndefined
  | JNull
  | JBool bool
  | JNum int
  | JStr string
  | JArr "jsvalue list"
  | JObj "(string \<times> jsvalue) list"

text \<open>Errors thrown by the code or by the runtime under it. \<open>Error m\<close> is \<^verbatim>\<open>new Error(m)\<close>.\<close>

datatype error = Error string | TypeError | SyntaxError

text \<open>Truthiness, as \<^verbatim>\<open>if (v)\<close>, \<^verbatim>\<open>!v\<close> and \<^verbatim>\<open>a && b\<close> test it.\<close>

fun truthy :: "jsvalue \<Rightarrow> bool" where
  "truthy JUndefined = False"
| "truthy JNull = False"
| "truthy (JBool b) = b"
| "truthy (JNum n) = (n \<noteq> 0)"
| "truthy (JStr s) = (s \<noteq> [])"
| "truthy (JArr _) = True"
| "truthy (JObj _) = True"

text \<open>\<^verbatim>\<open>v == null\<close>: true of \<^verbatim>\<open>null\<close> and \<^verbatim>\<open>undefined\<close> only.\<close>

fun nullish :: "jsvalue \<Rightarrow> bool" where
  "nullish JUndefined = True"
| "nullish JNull = True"
| "nullish _ = False"

text \<open>
  \<^verbatim>\<open>v?.[k]\<close>: the own property \<open>k\<close> of an object, \<^verbatim>\<open>undefined\<close> elsewhere. The plain read
  \<^verbatim>\<open>v[k]\<close> agrees with it except on \<^verbatim>\<open>null\<close> and \<^verbatim>\<open>undefined\<close>, where it throws a
  TypeError; every plain read of the source on a possibly nullish value is guarded
  explicitly below. Indices of arrays and strings and inherited properties are not
  modelled: entries are records (\<^verbatim>\<open>T extends Record<string, any>\<close>).
\<close>

fun get_prop :: "jsvalue \<Rightarrow> string \<Rightarrow> jsvalue" where
  "get_prop (JObj kvs) k = (case map_of kvs k of Some v \<Rightarrow> v | None \<Rightarrow> JUndefined)"
| "get_prop _ k = JUndefined"

text \<open>\<^verbatim>\<open>o[k] = v\<close> on an object: replaces the property in place or appends it.\<close>

fun set_prop :: "jsvalue \<Rightarrow> string \<Rightarrow> jsvalue \<Rightarrow> jsvalue" where
  "set_prop (JObj kvs) k v = JObj (AList.update k v kvs)"
| "set_prop x k v = x"

text \<open>
  The document that \<^verbatim>\<open>JSON.stringify\<close> writes for a value, and so the value that
  \<^verbatim>\<open>JSON.parse\<close> reads back from its text: a property whose value is \<^verbatim>\<open>undefined\<close> is
  left out, an element of an array that is \<^verbatim>\<open>undefined\<close> becomes \<^verbatim>\<open>null\<close>, everything
  else is kept.
\<close>

fun to_json :: "jsvalue \<Rightarrow> jsvalue" where
  "to_json (JObj kvs) =
     JObj (map (\<lambda>kv. (fst kv, to_json (snd kv))) (filter (\<lambda>kv. snd kv \<noteq> JUndefined) kvs))"
| "to_json (JArr xs) = JArr (map (\<lambda>x. if x = JUndefined then JNull else to_json x) xs)"
| "to_json v = v"

subsection \<open>Numbers and values as strings\<close>

definition digit_char :: "nat \<Rightarrow> char" where
  "digit_char d = ''0123456789'' ! d"

fun show_nat :: "nat \<Rightarrow> string" where
  "show_nat n = (if n < 10 then [digit_char n] else show_nat (n div 10) @ [digit_char (n mod 10)])"

declare show_nat.simps [simp del]

definition show_int :: "int \<Rightarrow> string" where
  "show_int i = (if i < 0 then CHR ''-'' # show_nat (nat (- i)) else show_nat (nat i))"

fun intercalate :: "string \<Rightarrow> string list \<Rightarrow> string" where
  "intercalate sep [] = []"
| "intercalate sep [x] = x"
| "intercalate sep (x # y # ys) = x @ sep @ intercalate sep (y # ys)"

text \<open>\<^verbatim>\<open>String(v)\<close> and \<^verbatim>\<open>`${v}`\<close>.\<close>

fun js_String :: "jsvalue \<Rightarrow> string" where
  "js_String JUndefined = ''undefined''"
| "js_String JNull = ''null''"
| "js_String (JBool b) = (if b then ''true'' else ''false'')"
| "js_String (JNum n) = show_int n"
| "js_String (JStr s) = s"
| "js_String (JArr xs) = intercalate '','' (map (\<lambda>x. if nullish x then [] else js_String x) xs)"
| "js_String (JObj _) = ''[object Object]''"

subsection \<open>Strings and arrays\<close>

definition endsWith :: "string \<Rightarrow> string \<Rightarrow> bool" where
  "endsWith s suffix = (length suffix \<le> length s \<and> drop (length s - length suffix) s = suffix)"

definition startsWith :: "string \<Rightarrow> string \<Rightarrow> bool" where
  "startsWith s pre = (take (length pre) s = pre)"

fun str_includes :: "string \<Rightarrow> string \<Rightarrow> bool" where
  "str_includes [] t = (t = [])"
| "str_includes (c # s) t = (startsWith (c # s) t \<or> str_includes s t)"

text \<open>\<^verbatim>\<open>toLowerCase\<close> on the ASCII letters (file names are byte strings here).\<close>

definition lower_char :: "char \<Rightarrow> char" where
  "lower_char c =
     (case map_of (zip ''ABCDEFGHIJKLMNOPQRSTUVWXYZ'' ''abcdefghijklmnopqrstuvwxyz'') c of
        None \<Rightarrow> c
      | Some l \<Rightarrow> l)"

definition toLowerCase :: "string \<Rightarrow> string" where
  "toLowerCase s = map lower_char s"

text \<open>
  \<^verbatim>\<open>xs.slice(start, end)\<close>: a negative index counts from the end, and both are clamped
  to the array.
\<close>

definition rel_index :: "nat \<Rightarrow> int \<Rightarrow> nat" where
  "rel_index len k = (if k < 0 then nat (max (int len + k) 0) else min (nat k) len)"

definition slice :: "'a list \<Rightarrow> int \<Rightarrow> int option \<Rightarrow> 'a list" where
  "slice xs start stop =
     (let i = rel_index (length xs) start;
          j = (case stop of None \<Rightarrow> length xs | Some e \<Rightarrow> rel_index (length xs) e)
      in take (j - i) (drop i xs))"

text \<open>\<^verbatim>\<open>xs.indexOf(x)\<close>: the first position of \<open>x\<close>, or -1.\<close>

definition indexOf :: "'a list \<Rightarrow> 'a \<Rightarrow> int" where
  "indexOf xs x = (if x \<in> set xs then int (length (takeWhile (\<lambda>y. y \<noteq> x) xs)) else - 1)"

section \<open>The file system under the content directory\<close>

text \<open>
  The content directory holds one directory per collection, \<^verbatim>\<open>globals\<close> and \<^verbatim>\<open>assets\<close>;
  each is a listing of named files in \<^verbatim>\<open>readdir\<close> order. Collection names, ids and asset
  file names are single path segments, so \<^verbatim>\<open>path.join(contentDir, d, f)\<close> is the file \<open>f\<close>
  of directory \<open>d\<close>. A new file goes to the end of its listing. A file is its bytes.
\<close>

type_synonym dir = "(string \<times> string) list"
type_synonym filesys = "(string \<times> dir) list"

definition access :: "filesys \<Rightarrow> string \<Rightarrow> bool" where
  "access fs d = (map_of fs d \<noteq> None)"

definition readdir :: "filesys \<Rightarrow> string \<Rightarrow> string list option" where
  "readdir fs d = map_option (map fst) (map_of fs d)"

definition readFile :: "filesys \<Rightarrow> string \<Rightarrow> string \<Rightarrow> string option" where
  "readFile fs d f = (case map_of fs d of None \<Rightarrow> None | Some files \<Rightarrow> map_of files f)"

text \<open>\<^verbatim>\<open>fs.mkdir(dir, { recursive: true })\<close>: nothing happens when the directory exists.\<close>

definition mkdir :: "filesys \<Rightarrow> string \<Rightarrow> filesys" where
  "mkdir fs d = (if access fs d then fs else fs @ [(d, [])])"

text \<open>\<^verbatim>\<open>fs.writeFile\<close> into an existing directory (each caller has made it before).\<close>

definition writeFile :: "filesys \<Rightarrow> string \<Rightarrow> string \<Rightarrow> string \<Rightarrow> filesys" where
  "writeFile fs d f content =
     (case map_of fs d of None \<Rightarrow> fs
      | Some files \<Rightarrow> AList.update d (AList.update f content files) fs)"

section \<open>Collaborators\<close>

datatype image_format = Avif | Webp | Jpeg | Png

record resize_options =
  fit :: "string option"
  position :: "jsvalue option"
  background :: "string option"
  withoutEnlargement :: "bool option"
  withoutReduction :: "bool option"

datatype sharp_op =
    Resize "int option" "int option" resize_options
  | ToFormat image_format "int option"

text \<open>
  The image library \<^verbatim>\<open>sharp\<close>, when it is installed: \<open>metadata\<close> gives width and height
  of an image, \<open>toBuffer\<close> runs a pipeline of operations on it; \<open>None\<close> is a throw.
\<close>

record sharp_module =
  metadata :: "string \<Rightarrow> (nat option \<times> nat option) option"
  toBuffer :: "sharp_op list \<Rightarrow> string \<Rightarrow> string option"

text \<open>
  What the store calls and does not define itself:
  \<^item> \<open>JSON_stringify v\<close> is \<^verbatim>\<open>JSON.stringify(v, null, 2)\<close>, and \<open>JSON_parse\<close> is
    \<^verbatim>\<open>JSON.parse\<close>, \<open>None\<close> when it throws;
  \<^item> \<open>validate schema all data\<close> is the validation of \<^verbatim>\<open>setEntry\<close>: the schema converted
    by \<^verbatim>\<open>convertZodSchema\<close> against the schemas of all collections, compiled and run by
    Ajv; \<open>None\<close> when the data is valid, otherwise \<^verbatim>\<open>ajv.errorsText(validate.errors)\<close>;
  \<^item> \<open>doesMatchFilter\<close> is the filter evaluator;
  \<^item> \<open>Date_getTime s\<close> is \<^verbatim>\<open>new Date(s).getTime()\<close>, \<open>None\<close> for NaN;
  \<^item> \<open>localeCompare a b\<close> is \<^verbatim>\<open>a.localeCompare(b)\<close>;
  \<^item> \<open>sharp\<close> is \<^verbatim>\<open>require("sharp")\<close>, \<open>None\<close> when the module is missing.
\<close>

record 's runtime =
  JSON_stringify :: "jsvalue \<Rightarrow> string"
  JSON_parse :: "string \<Rightarrow> jsvalue option"
  validate :: "'s \<Rightarrow> (string \<times> 's) list \<Rightarrow> jsvalue \<Rightarrow> string option"
  doesMatchFilter :: "jsvalue \<Rightarrow> jsvalue \<Rightarrow> bool"
  Date_getTime :: "string \<Rightarrow> int option"
  localeCompare :: "string \<Rightarrow> string \<Rightarrow> int"
  sharp :: "sharp_module option"

section \<open>The registry\<close>

record 's Collection =
  name :: string
  schema :: 's

record 's Global =
  gname :: string
  gschema :: 's

datatype 's CollectionReference = Name string | Handle "'s Collection"

datatype 's GlobalReference = GName string | GHandle "'s Global"

text \<open>
  The two \<^verbatim>\<open>Map\<close>s of the class, as association lists in insertion order; a name given
  twice keeps its first position and its last value.
\<close>

record 's LocalApi =
  collections :: "(string \<times> 's Collection) list"
  globals :: "(string \<times> 's Global) list"
  contentDir :: string

definition new_Map :: "(string \<times> 'a) list \<Rightarrow> (string \<times> 'a) list" where
  "new_Map kvs = foldl (\<lambda>m (k, v). AList.update k v m) [] kvs"

definition new_LocalApi :: "'s Collection list \<Rightarrow> 's Global list \<Rightarrow> string \<Rightarrow> 's LocalApi" where
  "new_LocalApi cs gs dir =
     \<lparr> collections = new_Map (map (\<lambda>c. (name c, c)) cs),
       globals = new_Map (map (\<lambda>g. (gname g, g)) gs),
       contentDir = dir \<rparr>"

definition setConfig :: "'s LocalApi \<Rightarrow> 's Collection list \<Rightarrow> 's Global list \<Rightarrow> 's LocalApi" where
  "setConfig api cs gs =
     api \<lparr> collections := new_Map (map (\<lambda>c. (name c, c)) cs),
           globals := new_Map (map (\<lambda>g. (gname g, g)) gs) \<rparr>"

definition getCollectionRef :: "'s LocalApi \<Rightarrow> 's CollectionReference \<Rightarrow> error + 's Collection" where
  "getCollectionRef api ref =
     (case ref of
        Name r \<Rightarrow>
          (case map_of (collections api) r of
             None \<Rightarrow> Inl (Error (''Collection '' @ r @ '' not found''))
           | Some collection \<Rightarrow> Inr collection)
      | Handle c \<Rightarrow> Inr c)"

definition getGlobalRef :: "'s LocalApi \<Rightarrow> 's GlobalReference \<Rightarrow> error + 's Global" where
  "getGlobalRef api ref =
     (case ref of
        GName r \<Rightarrow>
          (case map_of (globals api) r of
             None \<Rightarrow> Inl (Error (''Global '' @ r @ '' not found''))
           | Some global \<Rightarrow> Inr global)
      | GHandle g \<Rightarrow> Inr g)"

definition getCollections_internal :: "'s LocalApi \<Rightarrow> 's Collection list" where
  "getCollections_internal api = map snd (collections api)"

section \<open>Entries\<close>

text \<open>
  \<^verbatim>\<open>JSON.parse(content).data\<close>: the parse may throw, and so does the read of \<^verbatim>\<open>data\<close> on
  a document that is \<^verbatim>\<open>null\<close>.
\<close>

definition parse_data :: "'s runtime \<Rightarrow> string \<Rightarrow> error + jsvalue" where
  "parse_data rt content =
     (case JSON_parse rt content of
        None \<Rightarrow> Inl SyntaxError
      | Some d \<Rightarrow> if nullish d then Inl TypeError else Inr (get_prop d ''data''))"

text \<open>
  The read of \<^verbatim>\<open>getEntry\<close> inside its \<^verbatim>\<open>try\<close>, for the \<^verbatim>\<open>name\<close> of the resolved collection:
  every failure (a name that is not a string in \<^verbatim>\<open>path.join\<close>, a missing file, a parse
  error) ends in the \<^verbatim>\<open>catch\<close>, which returns \<^verbatim>\<open>null\<close>.
\<close>

definition try_read :: "'s runtime \<Rightarrow> filesys \<Rightarrow> jsvalue \<Rightarrow> string \<Rightarrow> jsvalue" where
  "try_read rt fs col_name eid =
     (case col_name of
        JStr n \<Rightarrow>
          (case readFile fs n (eid @ ''.json'') of
             None \<Rightarrow> JNull
           | Some content \<Rightarrow> (case parse_data rt content of Inl _ \<Rightarrow> JNull | Inr entry \<Rightarrow> entry))
      | _ \<Rightarrow> JNull)"

text \<open>
  The nested call \<^verbatim>\<open>this.getEntry(value.collection, value.id)\<close>, with no options and so
  no resolution of its own. \<^verbatim>\<open>value.collection\<close> is any truthy value: a string is looked
  up in the registry (outside the \<^verbatim>\<open>try\<close>, so a miss throws); anything else is taken
  for a collection and its \<^verbatim>\<open>name\<close> is read.
\<close>

definition getEntry_nested :: "'s LocalApi \<Rightarrow> 's runtime \<Rightarrow> filesys \<Rightarrow> jsvalue \<Rightarrow> jsvalue \<Rightarrow> error + jsvalue" where
  "getEntry_nested api rt fs collection eid =
     (case collection of
        JStr r \<Rightarrow>
          (case getCollectionRef api (Name r) of
             Inl e \<Rightarrow> Inl e
           | Inr col \<Rightarrow> Inr (try_read rt fs (JStr (name col)) (js_String eid)))
      | _ \<Rightarrow> Inr (try_read rt fs (get_prop collection ''name'') (js_String eid)))"

text \<open>
  The loop over \<^verbatim>\<open>include\<close> for one entry, shared by \<^verbatim>\<open>getEntry\<close> and \<^verbatim>\<open>getEntries\<close>:
  a field that holds \<^verbatim>\<open>{ id, collection }\<close> gets the referenced entry as its \<^verbatim>\<open>entry\<close>.
  The read \<^verbatim>\<open>entry[include]\<close> throws on an entry that is \<^verbatim>\<open>null\<close> or \<^verbatim>\<open>undefined\<close>.
\<close>

fun resolveIncludes :: "'s LocalApi \<Rightarrow> 's runtime \<Rightarrow> filesys \<Rightarrow> jsvalue \<Rightarrow> string list \<Rightarrow> error + jsvalue" where
  "resolveIncludes api rt fs entry [] = Inr entry"
| "resolveIncludes api rt fs entry (inc # rest) =
     (if nullish entry then Inl TypeError
      else
        let val = get_prop entry inc in
        if truthy (get_prop val ''id'') \<and> truthy (get_prop val ''collection'') then
          (case getEntry_nested api rt fs (get_prop val ''collection'') (get_prop val ''id'') of
             Inl e \<Rightarrow> Inl e
           | Inr other \<Rightarrow>
               resolveIncludes api rt fs (set_prop entry inc (set_prop val ''entry'' other)) rest)
        else resolveIncludes api rt fs entry rest)"

definition getEntry :: "'s LocalApi \<Rightarrow> 's runtime \<Rightarrow> filesys \<Rightarrow> 's CollectionReference \<Rightarrow> string \<Rightarrow> string list option \<Rightarrow> error + jsvalue" where
  "getEntry api rt fs collection eid incs =
     (case getCollectionRef api collection of
        Inl e \<Rightarrow> Inl e
      | Inr col \<Rightarrow>
          (case readFile fs (name col) (eid @ ''.json'') of
             None \<Rightarrow> Inr JNull
           | Some content \<Rightarrow>
               (case parse_data rt content of
                  Inl _ \<Rightarrow> Inr JNull
                | Inr entry \<Rightarrow>
                    if truthy entry \<and> incs \<noteq> None \<and> incs \<noteq> Some [] then
                      (case resolveIncludes api rt fs entry (case incs of None \<Rightarrow> [] | Some l \<Rightarrow> l) of
                         Inl _ \<Rightarrow> Inr JNull
                       | Inr entry' \<Rightarrow> Inr entry')
                    else Inr entry)))"

text \<open>
  \<^verbatim>\<open>setEntry\<close> returns its outcome and the file system it leaves: the directory is made
  before the data is validated, the file is written after.
\<close>

definition setEntry :: "'s LocalApi \<Rightarrow> 's runtime \<Rightarrow> filesys \<Rightarrow> 's CollectionReference \<Rightarrow> string \<Rightarrow> jsvalue \<Rightarrow> (error + unit) \<times> filesys" where
  "setEntry api rt fs collection eid data =
     (case getCollectionRef api collection of
        Inl e \<Rightarrow> (Inl e, fs)
      | Inr col \<Rightarrow>
          let fs1 = mkdir fs (name col);
              cols = getCollections_internal api
          in (case validate rt (schema col) (map (\<lambda>c. (name c, schema c)) cols) data of
                Some errorsText \<Rightarrow> (Inl (Error errorsText), fs1)
              | None \<Rightarrow>
                  (Inr (),
                   writeFile fs1 (name col) (eid @ ''.json'')
                     (JSON_stringify rt (JObj [(''data'', data)])))))"

definition deleteEntry :: "'s LocalApi \<Rightarrow> filesys \<Rightarrow> 's CollectionReference \<Rightarrow> string \<Rightarrow> (error + bool) \<times> filesys" where
  "deleteEntry api fs collection eid =
     (case getCollectionRef api collection of
        Inl e \<Rightarrow> (Inl e, fs)
      | Inr col \<Rightarrow>
          (case readFile fs (name col) (eid @ ''.json'') of
             None \<Rightarrow> (Inr False, fs)
           | Some _ \<Rightarrow>
               (Inr True,
                map (\<lambda>(d, files). if d = name col then (d, AList.delete (eid @ ''.json'') files) else (d, files)) fs)))"

section \<open>Listing entries\<close>

datatype direction = Asc | Desc

record entries_options =
  o_includeCount :: "bool option"
  o_include :: "string list option"
  o_limit :: "int option"
  o_offset :: "int option"
  o_filters :: "jsvalue option"
  o_sort :: "(string \<times> direction) list option"

record entries_result =
  entries :: "jsvalue list"
  limit :: int
  offset :: int
  count :: "nat option"

subsection \<open>The comparator\<close>

definition string_compare :: "'s runtime \<Rightarrow> direction \<Rightarrow> jsvalue \<Rightarrow> jsvalue \<Rightarrow> int" where
  "string_compare rt direction valueA valueB =
     (if direction = Asc then localeCompare rt (js_String valueA) (js_String valueB)
      else localeCompare rt (js_String valueB) (js_String valueA))"

text \<open>
  The comparison of two values that are not nullish: numbers by difference, two strings
  that both parse as dates by the difference of their times, anything else as strings.
  (No value read from a JSON file is an instance of \<^verbatim>\<open>Date\<close>, so that branch of the
  source is never taken.)
\<close>

fun compare_values :: "'s runtime \<Rightarrow> direction \<Rightarrow> jsvalue \<Rightarrow> jsvalue \<Rightarrow> int" where
  "compare_values rt direction (JNum x) (JNum y) = (if direction = Asc then x - y else y - x)"
| "compare_values rt direction (JStr x) (JStr y) =
     (case (Date_getTime rt x, Date_getTime rt y) of
        (Some dateA, Some dateB) \<Rightarrow> (if direction = Asc then dateA - dateB else dateB - dateA)
      | _ \<Rightarrow> string_compare rt direction (JStr x) (JStr y))"
| "compare_values rt direction valueA valueB = string_compare rt direction valueA valueB"

definition compare_entries :: "'s runtime \<Rightarrow> string \<times> direction \<Rightarrow> jsvalue \<Rightarrow> jsvalue \<Rightarrow> int" where
  "compare_entries rt srt a b =
     (let key = fst srt; direction = snd srt;
          valueA = get_prop a key;
          valueB = get_prop b key
      in if nullish valueA \<and> nullish valueB then 0
         else if nullish valueA then (if direction = Asc then - 1 else 1)
         else if nullish valueB then (if direction = Asc then 1 else - 1)
         else compare_values rt direction valueA valueB)"

subsection \<open>\<^verbatim>\<open>Array.prototype.sort\<close>\<close>

text \<open>
  The sort of an array is stable. With a comparator that orders the elements
  consistently every stable sort gives the same array, the one of this insertion sort;
  with any other comparator the language leaves the order to the implementation.
\<close>

fun insert_sorted :: "('a \<Rightarrow> 'a \<Rightarrow> int) \<Rightarrow> 'a \<Rightarrow> 'a list \<Rightarrow> 'a list" where
  "insert_sorted cmp x [] = [x]"
| "insert_sorted cmp x (y # ys) = (if cmp x y \<le> 0 then x # y # ys else y # insert_sorted cmp x ys)"

definition stable_sort :: "('a \<Rightarrow> 'a \<Rightarrow> int) \<Rightarrow> 'a list \<Rightarrow> 'a list" where
  "stable_sort cmp xs = foldr (insert_sorted cmp) xs []"

text \<open>
  One \<^verbatim>\<open>entries.sort(...)\<close>: elements that are \<^verbatim>\<open>undefined\<close> go to the end and never
  reach the comparator; the others are all compared as soon as there are two of them,
  and the comparator's read \<^verbatim>\<open>a[key]\<close> throws on \<^verbatim>\<open>null\<close>.
\<close>

definition sort_entries :: "'s runtime \<Rightarrow> string \<times> direction \<Rightarrow> jsvalue list \<Rightarrow> error + jsvalue list" where
  "sort_entries rt srt es =
     (let defined = filter (\<lambda>e. e \<noteq> JUndefined) es;
          undefined = filter (\<lambda>e. e = JUndefined) es
      in if 2 \<le> length defined \<and> JNull \<in> set defined then Inl TypeError
         else Inr (stable_sort (compare_entries rt srt) defined @ undefined))"

fun sort_loop :: "'s runtime \<Rightarrow> (string \<times> direction) list \<Rightarrow> jsvalue list \<Rightarrow> error + jsvalue list" where
  "sort_loop rt [] es = Inr es"
| "sort_loop rt (srt # rest) es =
     (case sort_entries rt srt es of Inl e \<Rightarrow> Inl e | Inr es' \<Rightarrow> sort_loop rt rest es')"

subsection \<open>\<^verbatim>\<open>getEntries\<close>\<close>

text \<open>The files read and parsed under \<^verbatim>\<open>Promise.all\<close>: one failure rejects the whole.\<close>

fun read_all :: "'s runtime \<Rightarrow> filesys \<Rightarrow> string \<Rightarrow> string list \<Rightarrow> error + jsvalue list" where
  "read_all rt fs d [] = Inr []"
| "read_all rt fs d (file # rest) =
     (case readFile fs d file of
        None \<Rightarrow> Inl (Error ''ENOENT'')
      | Some content \<Rightarrow>
          (case parse_data rt content of
             Inl e \<Rightarrow> Inl e
           | Inr entry \<Rightarrow>
               (case read_all rt fs d rest of Inl e \<Rightarrow> Inl e | Inr es \<Rightarrow> Inr (entry # es))))"

fun include_all :: "'s LocalApi \<Rightarrow> 's runtime \<Rightarrow> filesys \<Rightarrow> string list \<Rightarrow> jsvalue list \<Rightarrow> error + jsvalue list" where
  "include_all api rt fs incs [] = Inr []"
| "include_all api rt fs incs (entry # rest) =
     (case resolveIncludes api rt fs entry incs of
        Inl e \<Rightarrow> Inl e
      | Inr entry' \<Rightarrow>
          (case include_all api rt fs incs rest of Inl e \<Rightarrow> Inl e | Inr es \<Rightarrow> Inr (entry' # es)))"

text \<open>Steps 3 and 4 of the source: the filter, the total, the offset and the limit.\<close>

definition apply_filters :: "'s runtime \<Rightarrow> entries_options \<Rightarrow> jsvalue list \<Rightarrow> jsvalue list" where
  "apply_filters rt opts es =
     (case o_filters opts of
        None \<Rightarrow> es
      | Some f \<Rightarrow> if truthy f then filter (\<lambda>entry. doesMatchFilter rt entry f) es else es)"

definition limit_of :: "entries_options \<Rightarrow> int" where
  "limit_of opts = (case o_limit opts of None \<Rightarrow> 1000 | Some l \<Rightarrow> l)"

definition offset_of :: "entries_options \<Rightarrow> int" where
  "offset_of opts = (case o_offset opts of None \<Rightarrow> 0 | Some off \<Rightarrow> off)"

definition paginate :: "entries_options \<Rightarrow> jsvalue list \<Rightarrow> jsvalue list" where
  "paginate opts es =
     slice (if offset_of opts \<noteq> 0 then slice es (offset_of opts) None else es) 0 (Some (limit_of opts))"

definition getEntries :: "'s LocalApi \<Rightarrow> 's runtime \<Rightarrow> filesys \<Rightarrow> 's CollectionReference \<Rightarrow> entries_options \<Rightarrow> error + entries_result" where
  "getEntries api rt fs collection opts =
     (case getCollectionRef api collection of
        Inl e \<Rightarrow> Inl e
      | Inr col \<Rightarrow>
          if \<not> access fs (name col) then
            Inr \<lparr> entries = [], limit = limit_of opts, offset = offset_of opts, count = None \<rparr>
          else
            (case readdir fs (name col) of
               None \<Rightarrow> Inl (Error ''ENOENT'')
             | Some files \<Rightarrow>
                 (case read_all rt fs (name col) (filter (\<lambda>file. endsWith file ''.json'') files) of
                    Inl e \<Rightarrow> Inl e
                  | Inr es0 \<Rightarrow>
                      let es1 = apply_filters rt opts es0;
                          totalCount = length es1;
                          es2 = paginate opts es1
                      in (case sort_loop rt (case o_sort opts of None \<Rightarrow> [] | Some ss \<Rightarrow> ss) es2 of
                            Inl e \<Rightarrow> Inl e
                          | Inr es3 \<Rightarrow>
                              (case (case o_include opts of
                                       None \<Rightarrow> Inr es3
                                     | Some incs \<Rightarrow> if incs = [] then Inr es3 else include_all api rt fs incs es3) of
                                 Inl e \<Rightarrow> Inl e
                               | Inr es4 \<Rightarrow>
                                   Inr \<lparr> entries = es4, limit = limit_of opts, offset = offset_of opts,
                                         count = (if o_includeCount opts = Some True then Some totalCount else None) \<rparr>)))))"

section \<open>Assets\<close>

subsection \<open>\<^verbatim>\<open>path.extname\<close> and \<^verbatim>\<open>path.basename\<close>\<close>

text \<open>The last segment of a path, trailing slashes dropped.\<close>

definition path_part :: "string \<Rightarrow> string" where
  "path_part p =
     rev (takeWhile (\<lambda>c. c \<noteq> CHR ''/'') (dropWhile (\<lambda>c. c = CHR ''/'') (rev p)))"

text \<open>
  The extension runs from the last dot of the last segment, unless there is no dot, the
  dot opens the segment, or the segment is \<^verbatim>\<open>..\<close>.
\<close>

definition extname :: "string \<Rightarrow> string" where
  "extname p =
     (let s = path_part p;
          e = rev (takeWhile (\<lambda>c. c \<noteq> CHR ''.'') (rev s))
      in if CHR ''.'' \<notin> set s \<or> length s = Suc (length e) \<or> s = ''..'' then []
         else drop (length s - Suc (length e)) s)"

definition basename :: "string \<Rightarrow> string \<Rightarrow> string" where
  "basename p suffix =
     (if suffix \<noteq> [] \<and> length suffix \<le> length p then
        (if suffix = p then []
         else let s = path_part p
              in if endsWith s suffix \<and> s \<noteq> suffix then take (length s - length suffix) s else s)
      else path_part p)"

subsection \<open>Content types\<close>

definition contentTypes :: "(string \<times> string) list" where
  "contentTypes =
     [(''.jpg'', ''image/jpeg''),
      (''.jpeg'', ''image/jpeg''),
      (''.png'', ''image/png''),
      (''.gif'', ''image/gif''),
      (''.webp'', ''image/webp''),
      (''.avif'', ''image/avif''),
      (''.svg'', ''image/svg+xml''),
      (''.mp4'', ''video/mp4''),
      (''.webm'', ''video/webm''),
      (''.mp3'', ''audio/mpeg''),
      (''.wav'', ''audio/wav''),
      (''.ogg'', ''audio/ogg''),
      (''.pdf'', ''application/pdf''),
      (''.doc'', ''application/msword''),
      (''.docx'', ''application/vnd.openxmlformats-officedocument.wordprocessingml.document''),
      (''.zip'', ''application/zip''),
      (''.rar'', ''application/x-rar-compressed''),
      (''.json'', ''application/json''),
      (''.xml'', ''application/xml''),
      (''.txt'', ''text/plain'')]"

definition getContentType :: "string \<Rightarrow> string option" where
  "getContentType filename = map_of contentTypes (toLowerCase (extname filename))"

subsection \<open>\<^verbatim>\<open>uploadAsset\<close>\<close>

definition getAssetDir :: string where
  "getAssetDir = ''assets''"

definition file_exists :: "filesys \<Rightarrow> string \<Rightarrow> string \<Rightarrow> bool" where
  "file_exists fs d f = (readFile fs d f \<noteq> None)"

text \<open>The name tried at a given counter: \<^verbatim>\<open>`${base}-${counter}${ext}`\<close>.\<close>

definition suffixed :: "string \<Rightarrow> nat \<Rightarrow> string" where
  "suffixed filename counter =
     (let ext = extname filename;
          base = basename filename ext
      in base @ ''-'' @ show_nat counter @ ext)"

text \<open>The \<^verbatim>\<open>while\<close> loop of \<^verbatim>\<open>uploadAsset\<close>, on its two variables.\<close>

function ensure_unique :: "filesys \<Rightarrow> string \<Rightarrow> string \<Rightarrow> nat \<Rightarrow> string" where
  "ensure_unique fs filename finalFilename counter =
     (if file_exists fs getAssetDir finalFilename
      then ensure_unique fs filename (suffixed filename counter) (counter + 1)
      else finalFilename)"
  by pat_completeness auto

record upload_result =
  filename :: string
  path :: string
  size_bytes :: nat
  upload_contentType :: "string option"

definition uploadAsset :: "'s LocalApi \<Rightarrow> filesys \<Rightarrow> string \<Rightarrow> string \<Rightarrow> string option \<Rightarrow> upload_result \<times> filesys" where
  "uploadAsset api fs file fname ctype =
     (let fs1 = mkdir fs getAssetDir;
          contentType = (case ctype of Some t \<Rightarrow> Some t | None \<Rightarrow> getContentType fname);
          finalFilename = ensure_unique fs1 fname fname 1;
          fs2 = writeFile fs1 getAssetDir finalFilename file
      in (\<lparr> filename = finalFilename,
            path = contentDir api @ ''/'' @ getAssetDir @ ''/'' @ finalFilename,
            size_bytes = length file,
            upload_contentType = contentType \<rparr>, fs2))"

subsection \<open>\<^verbatim>\<open>getAsset\<close>\<close>

record asset_options =
  a_width :: "int option"
  a_height :: "int option"
  a_format :: "image_format option"
  a_quality :: "int option"
  a_resize :: resize_options

record asset_data =
  data :: string
  contentType :: "string option"
  width :: "nat option"
  height :: "nat option"

definition num_truthy :: "int option \<Rightarrow> bool" where
  "num_truthy n = (case n of None \<Rightarrow> False | Some k \<Rightarrow> k \<noteq> 0)"

definition is_image :: "string option \<Rightarrow> bool" where
  "is_image ctype = (case ctype of None \<Rightarrow> False | Some t \<Rightarrow> startsWith t ''image/'')"

definition wants_transform :: "asset_options option \<Rightarrow> bool" where
  "wants_transform options =
     (case options of
        None \<Rightarrow> False
      | Some opts \<Rightarrow>
          num_truthy (a_width opts) \<or> num_truthy (a_height opts) \<or> a_format opts \<noteq> None \<or>
          num_truthy (a_quality opts))"

definition pipeline :: "asset_options \<Rightarrow> sharp_op list" where
  "pipeline opts =
     (if num_truthy (a_width opts) \<or> num_truthy (a_height opts)
      then [Resize (a_width opts) (a_height opts) (a_resize opts)] else []) @
     (case a_format opts of None \<Rightarrow> [] | Some f \<Rightarrow> [ToFormat f (a_quality opts)])"

text \<open>
  The inner \<^verbatim>\<open>try\<close> keeps what was assigned before a throw: the original data and no
  dimensions when the library or the first metadata fails, the original data with its
  dimensions when the transformation fails, the new data with the old dimensions when
  the second metadata fails.
\<close>

definition getAsset :: "'s runtime \<Rightarrow> filesys \<Rightarrow> string \<Rightarrow> asset_options option \<Rightarrow> asset_data option" where
  "getAsset rt fs fname options =
     (case readFile fs getAssetDir fname of
        None \<Rightarrow> None
      | Some bytes \<Rightarrow>
          let ctype = getContentType fname;
              plain = \<lparr> data = bytes, contentType = ctype, width = None, height = None \<rparr>
          in if is_image ctype then
               (case sharp rt of
                  None \<Rightarrow> Some plain
                | Some lib \<Rightarrow>
                    (case metadata lib bytes of
                       None \<Rightarrow> Some plain
                     | Some (w, h) \<Rightarrow>
                         if wants_transform options then
                           (case toBuffer lib (case options of None \<Rightarrow> [] | Some opts \<Rightarrow> pipeline opts) bytes of
                              None \<Rightarrow> Some (plain \<lparr> width := w, height := h \<rparr>)
                            | Some bytes' \<Rightarrow>
                                (case metadata lib bytes' of
                                   None \<Rightarrow> Some (plain \<lparr> data := bytes', width := w, height := h \<rparr>)
                                 | Some (w', h') \<Rightarrow>
                                     Some (plain \<lparr> data := bytes', width := w', height := h' \<rparr>)))
                         else Some (plain \<lparr> width := w, height := h \<rparr>)))
             else Some plain)"

subsection \<open>\<^verbatim>\<open>listAssets\<close>\<close>

record list_options =
  l_search :: "string option"
  l_limit :: "int option"
  l_startAfter :: "string option"

record asset =
  asset_name :: string
  key :: string
  asset_size :: nat
  meta_width :: "nat option"
  meta_height :: "nat option"
  httpMetadata :: "string option"

text \<open>The three cuts of the listing, in the order of the source.\<close>

definition search_files :: "list_options \<Rightarrow> string list \<Rightarrow> string list" where
  "search_files opts files =
     (case l_search opts of
        None \<Rightarrow> files
      | Some s \<Rightarrow>
          if s \<noteq> [] then filter (\<lambda>file. str_includes (toLowerCase file) (toLowerCase s)) files
          else files)"

definition start_after :: "list_options \<Rightarrow> string list \<Rightarrow> string list" where
  "start_after opts files =
     (case l_startAfter opts of
        None \<Rightarrow> files
      | Some a \<Rightarrow>
          if a \<noteq> [] then
            (let index = indexOf files a
             in if index \<noteq> - 1 then slice files (index + 1) None else files)
          else files)"

definition limit_files :: "list_options \<Rightarrow> string list \<Rightarrow> string list" where
  "limit_files opts files =
     (case l_limit opts of
        None \<Rightarrow> files
      | Some l \<Rightarrow> if l \<noteq> 0 then slice files 0 (Some l) else files)"

definition stat_asset :: "'s runtime \<Rightarrow> filesys \<Rightarrow> string \<Rightarrow> asset option" where
  "stat_asset rt fs fname =
     (case readFile fs getAssetDir fname of
        None \<Rightarrow> None
      | Some bytes \<Rightarrow>
          let ctype = getContentType fname;
              dims = (if is_image ctype then
                        (case sharp rt of
                           None \<Rightarrow> (None, None)
                         | Some lib \<Rightarrow> (case metadata lib bytes of None \<Rightarrow> (None, None) | Some wh \<Rightarrow> wh))
                      else (None, None))
          in Some \<lparr> asset_name = rev (takeWhile (\<lambda>c. c \<noteq> CHR ''/'') (rev fname)),
                    key = fname,
                    asset_size = length bytes,
                    meta_width = fst dims,
                    meta_height = snd dims,
                    httpMetadata = ctype \<rparr>)"

definition listAssets :: "'s runtime \<Rightarrow> filesys \<Rightarrow> list_options \<Rightarrow> asset list" where
  "listAssets rt fs opts =
     (case readdir fs getAssetDir of
        None \<Rightarrow> []
      | Some files \<Rightarrow>
          (case those (map (stat_asset rt fs) (limit_files opts (start_after opts (search_files opts files)))) of
             None \<Rightarrow> []
           | Some assets \<Rightarrow> assets))"

section \<open>Vocabulary of the properties\<close>

text \<open>
  A comparator orders a set of elements consistently when the relation
  \<open>cmp a b \<le> 0\<close> ("\<open>a\<close> may stand before \<open>b\<close>") is total and transitive on it.
\<close>

definition consistent_on :: "('a \<Rightarrow> 'a \<Rightarrow> int) \<Rightarrow> 'a set \<Rightarrow> bool" where
  "consistent_on cmp A \<longleftrightarrow>
     (\<forall>a\<in>A. \<forall>b\<in>A. cmp a b \<le> 0 \<or> cmp b a \<le> 0) \<and>
     (\<forall>a\<in>A. \<forall>b\<in>A. \<forall>c\<in>A. cmp a b \<le> 0 \<longrightarrow> cmp b c \<le> 0 \<longrightarrow> cmp a c \<le> 0)"

text \<open>
  The comparator that orders by \<open>major\<close> and, where \<open>major\<close> ties two elements, by
  \<open>minor\<close>; and the same for a list of comparators, the most significant first.
\<close>

definition then_by :: "('a \<Rightarrow> 'a \<Rightarrow> int) \<Rightarrow> ('a \<Rightarrow> 'a \<Rightarrow> int) \<Rightarrow> 'a \<Rightarrow> 'a \<Rightarrow> int" where
  "then_by major minor a b = (if major a b \<le> 0 \<and> major b a \<le> 0 then minor a b else major a b)"

fun lex_cmp :: "('a \<Rightarrow> 'a \<Rightarrow> int) list \<Rightarrow> 'a \<Rightarrow> 'a \<Rightarrow> int" where
  "lex_cmp [] = (\<lambda>a b. 0)"
| "lex_cmp (c # cs) = then_by c (lex_cmp cs)"

text \<open>The time of a sort field that holds a date string, \<open>None\<close> for any other value.\<close>

definition time_of :: "'s runtime \<Rightarrow> jsvalue \<Rightarrow> int option" where
  "time_of rt v = (case v of JStr s \<Rightarrow> Date_getTime rt s | _ \<Rightarrow> None)"

text \<open>
  \<open>a\<close> may stand before \<open>b\<close> in chronological order of the given direction: descending
  with the entries without a date last, ascending with them first.
\<close>

definition chrono :: "'s runtime \<Rightarrow> direction \<Rightarrow> string \<Rightarrow> jsvalue \<Rightarrow> jsvalue \<Rightarrow> bool" where
  "chrono rt d k a b =
     (case d of
        Desc \<Rightarrow>
          (case time_of rt (get_prop b k) of
             None \<Rightarrow> True
           | Some tb \<Rightarrow> (case time_of rt (get_prop a k) of None \<Rightarrow> False | Some ta \<Rightarrow> tb \<le> ta))
      | Asc \<Rightarrow>
          (case time_of rt (get_prop a k) of
             None \<Rightarrow> True
           | Some ta \<Rightarrow> (case time_of rt (get_prop b k) of None \<Rightarrow> False | Some tb \<Rightarrow> ta \<le> tb)))"

text \<open>A sort field is numeric when it is nullish or a number.\<close>

definition numeric :: "string \<Rightarrow> jsvalue \<Rightarrow> bool" where
  "numeric k e = (nullish (get_prop e k) \<or> (\<exists>n. get_prop e k = JNum n))"

text \<open>A sort field is dated when it is nullish or a string that parses as a date.\<close>

definition dated :: "'s runtime \<Rightarrow> string \<Rightarrow> jsvalue \<Rightarrow> bool" where
  "dated rt k e = (nullish (get_prop e k) \<or> time_of rt (get_prop e k) \<noteq> None)"

text \<open>The names of the files in the assets directory.\<close>

definition asset_names :: "filesys \<Rightarrow> string set" where
  "asset_names fs = (case map_of fs getAssetDir of None \<Rightarrow> {} | Some files \<Rightarrow> fst ` set files)"

text \<open>
  \<open>e'\<close> is \<open>e\<close> after the resolution of references: the same fields, except that a field
  holding an object may hold another object.
\<close>

definition same_fields :: "jsvalue \<Rightarrow> jsvalue \<Rightarrow> bool" where
  "same_fields e e' \<longleftrightarrow>
     (e = JUndefined) = (e' = JUndefined) \<and>
     (\<forall>k. get_prop e' k = get_prop e k \<or>
          (\<exists>kvs kvs'. get_prop e k = JObj kvs \<and> get_prop e' k = JObj kvs'))"

section \<open>Examples\<close>

text \<open>
  A small runtime and registry on which the theorems below are run: a JSON codec given
  by a table of documents, a validator that requires the fields a schema lists, a
  filter that compares the \<^verbatim>\<open>rank\<close> field, two dates, a string comparison, and an image
  library.
\<close>

definition example_docs :: "(string \<times> jsvalue) list" where
  "example_docs =
     [(''post-a'', JObj [(''data'', JObj [(''title'', JStr ''a''), (''createdAt'', JStr ''2024-01-01''), (''rank'', JNum 2)])]),
      (''post-b'', JObj [(''data'', JObj [(''title'', JStr ''b''), (''createdAt'', JStr ''2024-03-01''), (''rank'', JNum 1)])]),
      (''post-c'', JObj [(''data'', JObj [(''title'', JStr ''c''), (''createdAt'', JNull), (''rank'', JNum 1)])]),
      (''post-d'', JObj [(''data'', JObj [(''title'', JStr ''d''), (''author'', JObj [(''id'', JStr ''x''), (''collection'', JStr ''ghost'')])])]),
      (''post-t'', JObj [(''data'', JObj [(''title'', JStr ''a'')])]),
      (''mixed-2'', JObj [(''data'', JObj [(''title'', JStr ''x''), (''v'', JNum 2)])]),
      (''mixed-1a'', JObj [(''data'', JObj [(''title'', JStr ''x''), (''v'', JStr ''1a'')])]),
      (''mixed-10'', JObj [(''data'', JObj [(''title'', JStr ''x''), (''v'', JNum 10)])])]"

definition example_stringify :: "jsvalue \<Rightarrow> string" where
  "example_stringify v =
     (case filter (\<lambda>(s, d). d = to_json v) example_docs of [] \<Rightarrow> ''?'' | (s, d) # _ \<Rightarrow> s)"

text \<open>Strings compared byte by byte, as \<^verbatim>\<open>localeCompare\<close> orders strings of digits and
  lower-case letters.\<close>

fun bytes_less :: "string \<Rightarrow> string \<Rightarrow> bool" where
  "bytes_less [] ys = (ys \<noteq> [])"
| "bytes_less (x # xs) [] = False"
| "bytes_less (x # xs) (y # ys) = ((of_char x :: nat) < of_char y \<or> (x = y \<and> bytes_less xs ys))"

definition example_localeCompare :: "string \<Rightarrow> string \<Rightarrow> int" where
  "example_localeCompare a b = (if a = b then 0 else if bytes_less a b then - 1 else 1)"

definition example_validate :: "string list \<Rightarrow> (string \<times> string list) list \<Rightarrow> jsvalue \<Rightarrow> string option" where
  "example_validate required all d =
     (case d of
        JObj kvs \<Rightarrow>
          (case filter (\<lambda>k. map_of kvs k = None) required of
             [] \<Rightarrow> None
           | k # _ \<Rightarrow> Some (''data must have required property '' @ k))
      | _ \<Rightarrow> Some ''data must be object'')"

definition example_sharp :: sharp_module where
  "example_sharp =
     \<lparr> metadata = (\<lambda>bytes. Some (Some (length bytes), Some 3)),
       toBuffer = (\<lambda>ops bytes. Some (take 1 bytes)) \<rparr>"

definition example_runtime :: "string list runtime" where
  "example_runtime =
     \<lparr> JSON_stringify = example_stringify,
       JSON_parse = map_of example_docs,
       validate = example_validate,
       doesMatchFilter = (\<lambda>entry f. get_prop entry ''rank'' = get_prop f ''rank''),
       Date_getTime = map_of [(''2024-01-01'', 1704067200000), (''2024-03-01'', 1709251200000)],
       localeCompare = example_localeCompare,
       sharp = Some example_sharp \<rparr>"

definition example_api :: "string list LocalApi" where
  "example_api = new_LocalApi [\<lparr> name = ''posts'', schema = [''title''] \<rparr>] [] ''content''"

text \<open>The call without options.\<close>

definition no_options :: entries_options where
  "no_options = \<lparr> o_includeCount = None, o_include = None, o_limit = None, o_offset = None,
                  o_filters = None, o_sort = None \<rparr>"

text \<open>A content directory with three posts and four assets.\<close>

definition example_fs :: filesys where
  "example_fs =
     [(''posts'', [(''1.json'', ''post-a''), (''2.json'', ''post-b''), (''3.json'', ''post-c''), (''notes.txt'', ''hello'')]),
      (''assets'', [(''a-logo.png'', ''aaaa''), (''b.png'', ''bb''), (''c-LOGO.png'', ''cccccc''), (''d.txt'', ''d'')])]"

text \<open>\<^verbatim>\<open>listAssets\<close> without options.\<close>

definition no_list_options :: list_options where
  "no_list_options = \<lparr> l_search = None, l_limit = None, l_startAfter = None \<rparr>"

text \<open>\<^verbatim>\<open>getAsset\<close> with an options object that sets nothing.\<close>

definition no_asset_options :: asset_options where
  "no_asset_options =
     \<lparr> a_width = None, a_height = None, a_format = None, a_quality = None,
       a_resize = \<lparr> fit = None, position = None, background = None,
                    withoutEnlargement = None, withoutReduction = None \<rparr> \<rparr>"

text \<open>The three posts of the example directory.\<close>

definition post_a :: jsvalue where
  "post_a = JObj [(''title'', JStr ''a''), (''createdAt'', JStr ''2024-01-01''), (''rank'', JNum 2)]"

definition post_b :: jsvalue where
  "post_b = JObj [(''title'', JStr ''b''), (''createdAt'', JStr ''2024-03-01''), (''rank'', JNum 1)]"

definition post_c :: jsvalue where
  "post_c = JObj [(''title'', JStr ''c''), (''createdAt'', JNull), (''rank'', JNum 1)]"

text \<open>Three entries whose field \<^verbatim>\<open>v\<close> holds the numbers 2 and 10 and the string \<^verbatim>\<open>1a\<close>.\<close>

definition mixed_2 :: jsvalue where
  "mixed_2 = JObj [(''title'', JStr ''x''), (''v'', JNum 2)]"

definition mixed_1a :: jsvalue where
  "mixed_1a = JObj [(''title'', JStr ''x''), (''v'', JStr ''1a'')]"

definition mixed_10 :: jsvalue where
  "mixed_10 = JObj [(''title'', JStr ''x''), (''v'', JNum 10)]"

definition mixed_fs :: filesys where
  "mixed_fs = [(''posts'', [(''1.json'', ''mixed-2''), (''2.json'', ''mixed-1a''), (''3.json'', ''mixed-10'')])]"

section \<open>Termination of the upload loop\<close>

lemma digit_char_inj: "a < 10 \<Longrightarrow> b < 10 \<Longrightarrow> digit_char a = digit_char b \<Longrightarrow> a = b"
proof -
  assume a: "a < 10" and b: "b < 10" and e: "digit_char a = digit_char b"
  have d: "distinct ''0123456789''" by simp
  have "a < length ''0123456789''" "b < length ''0123456789''" using a b by simp_all
  with d e show "a = b" unfolding digit_char_def by (simp only: nth_eq_iff_index_eq)
qed

lemma show_nat_nonempty: "show_nat n \<noteq> []"
  by (subst show_nat.simps) simp

lemma show_nat_inj: "show_nat m = show_nat n \<Longrightarrow> m = n"
proof (induction m arbitrary: n rule: show_nat.induct)
  case (1 m)
  show ?case
  proof (cases "m < 10")
    case True
    note m = this
    show ?thesis
    proof (cases "n < 10")
      case True
      with m "1.prems" show ?thesis
        by (simp add: show_nat.simps[of m] show_nat.simps[of n] digit_char_inj)
    next
      case False
      with m "1.prems" show_nat_nonempty[of "n div 10"] show ?thesis
        by (simp add: show_nat.simps[of m] show_nat.simps[of n])
    qed
  next
    case False
    note m = this
    show ?thesis
    proof (cases "n < 10")
      case True
      with m "1.prems" show_nat_nonempty[of "m div 10"] show ?thesis
        by (simp add: show_nat.simps[of m] show_nat.simps[of n])
    next
      case False
      with m "1.prems" have e: "show_nat (m div 10) = show_nat (n div 10)"
        and d: "digit_char (m mod 10) = digit_char (n mod 10)"
        by (simp_all add: show_nat.simps[of m] show_nat.simps[of n])
      from "1.IH"[OF m e] have "m div 10 = n div 10" .
      moreover from d have "m mod 10 = n mod 10" by (intro digit_char_inj) simp_all
      ultimately show ?thesis by (metis div_mult_mod_eq)
    qed
  qed
qed

lemma suffixed_inj: "suffixed f a = suffixed f b \<Longrightarrow> a = b"
  by (auto simp: suffixed_def Let_def dest: show_nat_inj)

lemma file_exists_names: "file_exists fs getAssetDir f \<longleftrightarrow> f \<in> asset_names fs"
proof (cases "map_of fs getAssetDir")
  case None
  then show ?thesis by (simp add: file_exists_def readFile_def asset_names_def)
next
  case (Some files)
  then show ?thesis by (simp add: file_exists_def readFile_def asset_names_def map_of_eq_None_iff)
qed

lemma finite_asset_names: "finite (asset_names fs)"
  by (simp add: asset_names_def split: option.splits)

lemma candidates_step:
  assumes "finite N"
  shows "2 * card {n \<in> N. \<exists>k\<ge>Suc c. n = suffixed f k} + (if suffixed f c \<in> N then 1 else 0)
         < 2 * card {n \<in> N. \<exists>k\<ge>c. n = suffixed f k} + (1::nat)"
proof (cases "suffixed f c \<in> N")
  case True
  have split: "\<And>k. c \<le> k \<longleftrightarrow> k = c \<or> Suc c \<le> k" by auto
  have "{n \<in> N. \<exists>k\<ge>c. n = suffixed f k} = insert (suffixed f c) {n \<in> N. \<exists>k\<ge>Suc c. n = suffixed f k}"
    using True unfolding split by blast
  moreover have "suffixed f c \<notin> {n \<in> N. \<exists>k\<ge>Suc c. n = suffixed f k}"
    by (auto dest: suffixed_inj)
  moreover have "finite {n \<in> N. \<exists>k\<ge>Suc c. n = suffixed f k}" using assms by simp
  ultimately have "card {n \<in> N. \<exists>k\<ge>c. n = suffixed f k} = Suc (card {n \<in> N. \<exists>k\<ge>Suc c. n = suffixed f k})"
    by simp
  with True show ?thesis by simp
next
  case False
  have "{n \<in> N. \<exists>k\<ge>Suc c. n = suffixed f k} \<subseteq> {n \<in> N. \<exists>k\<ge>c. n = suffixed f k}"
    by (auto intro: Suc_leD)
  moreover have "finite {n \<in> N. \<exists>k\<ge>c. n = suffixed f k}" using assms by simp
  ultimately have "card {n \<in> N. \<exists>k\<ge>Suc c. n = suffixed f k} \<le> card {n \<in> N. \<exists>k\<ge>c. n = suffixed f k}"
    by (rule card_mono[rotated])
  with False show ?thesis by simp
qed

termination ensure_unique
proof (relation "measure (\<lambda>(fs, f, final, c).
          2 * card {n \<in> asset_names fs. \<exists>k\<ge>c. n = suffixed f k}
          + (if final \<in> asset_names fs then 1 else 0))")
  show "wf (measure (\<lambda>(fs, f, final, c).
          2 * card {n \<in> asset_names fs. \<exists>k\<ge>c. n = suffixed f k}
          + (if final \<in> asset_names fs then 1 else 0)))"
    by simp
next
  fix fs :: filesys and f final :: string and c :: nat
  assume "file_exists fs getAssetDir final"
  then have "final \<in> asset_names fs" by (simp add: file_exists_names)
  with candidates_step[OF finite_asset_names, of fs c f]
  show "((fs, f, suffixed f c, c + 1), (fs, f, final, c))
        \<in> measure (\<lambda>(fs, f, final, c).
          2 * card {n \<in> asset_names fs. \<exists>k\<ge>c. n = suffixed f k}
          + (if final \<in> asset_names fs then 1 else 0))"
    by simp
qed

declare ensure_unique.simps [simp del]

section \<open>The file system\<close>

lemma access_mkdir: "access (mkdir fs d) d"
  by (simp add: mkdir_def access_def map_add_def)

lemma map_of_mkdir_same: "map_of (mkdir fs d) d = Some (case map_of fs d of None \<Rightarrow> [] | Some files \<Rightarrow> files)"
  by (auto simp: mkdir_def access_def map_add_def)

lemma readFile_mkdir: "readFile (mkdir fs d) d' f = readFile fs d' f"
  by (auto simp: mkdir_def access_def readFile_def map_add_def split: option.splits)

lemma readFile_writeFile:
  "map_of fs d \<noteq> None \<Longrightarrow>
   readFile (writeFile fs d f content) d' f' = (if d' = d \<and> f' = f then Some content else readFile fs d' f')"
  by (auto simp: writeFile_def readFile_def update_conv' split: option.splits)

section \<open>The example registry\<close>

lemma example_posts:
  "getCollectionRef example_api (Name ''posts'') = Inr \<lparr> name = ''posts'', schema = [''title''] \<rparr>"
  by (simp add: getCollectionRef_def example_api_def new_LocalApi_def new_Map_def)

lemma example_ghost:
  "getCollectionRef example_api (Name ''ghost'') = Inl (Error ''Collection ghost not found'')"
  by (simp add: getCollectionRef_def example_api_def new_LocalApi_def new_Map_def)

lemma access_mkdir_iff: "access (mkdir fs d) d' \<longleftrightarrow> d' = d \<or> access fs d'"
  by (auto simp: mkdir_def access_def map_add_def split: option.splits)

section \<open>Stable sorting\<close>

lemma consistent_on_total: "consistent_on cmp A \<Longrightarrow> a \<in> A \<Longrightarrow> b \<in> A \<Longrightarrow> \<not> cmp a b \<le> 0 \<Longrightarrow> cmp b a \<le> 0"
  unfolding consistent_on_def by blast

lemma consistent_on_trans:
  "consistent_on cmp A \<Longrightarrow> a \<in> A \<Longrightarrow> b \<in> A \<Longrightarrow> c \<in> A \<Longrightarrow> cmp a b \<le> 0 \<Longrightarrow> cmp b c \<le> 0 \<Longrightarrow> cmp a c \<le> 0"
  unfolding consistent_on_def by blast

lemma consistent_on_subset: "consistent_on cmp A \<Longrightarrow> B \<subseteq> A \<Longrightarrow> consistent_on cmp B"
  unfolding consistent_on_def by blast

lemma set_insert_sorted [simp]: "set (insert_sorted cmp x ys) = insert x (set ys)"
  by (induction ys) auto

lemma stable_sort_Nil [simp]: "stable_sort cmp [] = []"
  by (simp add: stable_sort_def)

lemma stable_sort_Cons [simp]: "stable_sort cmp (x # xs) = insert_sorted cmp x (stable_sort cmp xs)"
  by (simp add: stable_sort_def)

lemma set_stable_sort [simp]: "set (stable_sort cmp xs) = set xs"
  by (induction xs) auto

lemma length_insert_sorted [simp]: "length (insert_sorted cmp x ys) = Suc (length ys)"
  by (induction ys) auto

lemma length_stable_sort [simp]: "length (stable_sort cmp xs) = length xs"
  by (induction xs) auto

lemma sorted_insert_sorted:
  assumes "consistent_on cmp (insert x (set ys))"
    and "sorted_wrt (\<lambda>a b. cmp a b \<le> 0) ys"
  shows "sorted_wrt (\<lambda>a b. cmp a b \<le> 0) (insert_sorted cmp x ys)"
  using assms
proof (induction ys)
  case Nil
  then show ?case by simp
next
  case (Cons y ys)
  have sub: "consistent_on cmp (insert x (set ys))"
    using Cons.prems(1) by (rule consistent_on_subset) auto
  show ?case
  proof (cases "cmp x y \<le> 0")
    case True
    have "\<forall>z\<in>set ys. cmp x z \<le> 0"
    proof
      fix z assume z: "z \<in> set ys"
      with Cons.prems(2) have "cmp y z \<le> 0" by simp
      with True z show "cmp x z \<le> 0"
        using consistent_on_trans[OF Cons.prems(1), of x y z] by simp
    qed
    with True Cons.prems(2) show ?thesis by simp
  next
    case False
    then have yx: "cmp y x \<le> 0"
      using consistent_on_total[OF Cons.prems(1), of x y] by simp
    from Cons.IH[OF sub] Cons.prems(2)
    have "sorted_wrt (\<lambda>a b. cmp a b \<le> 0) (insert_sorted cmp x ys)" by simp
    with False yx Cons.prems(2) show ?thesis by auto
  qed
qed

lemma sorted_stable_sort:
  "consistent_on cmp (set xs) \<Longrightarrow> sorted_wrt (\<lambda>a b. cmp a b \<le> 0) (stable_sort cmp xs)"
proof (induction xs)
  case Nil
  then show ?case by simp
next
  case (Cons x xs)
  have "consistent_on cmp (set xs)"
    using Cons.prems by (rule consistent_on_subset) auto
  then have "sorted_wrt (\<lambda>a b. cmp a b \<le> 0) (stable_sort cmp xs)" by (rule Cons.IH)
  moreover have "consistent_on cmp (insert x (set (stable_sort cmp xs)))"
    using Cons.prems by simp
  ultimately show ?case by (simp add: sorted_insert_sorted)
qed



lemma insert_sorted_commute:
  assumes "consistent_on cmp (insert x (insert y (set zs)))"
    and "\<not> (cmp x y \<le> 0 \<and> cmp y x \<le> 0)"
  shows "insert_sorted cmp y (insert_sorted cmp x zs) = insert_sorted cmp x (insert_sorted cmp y zs)"
  using assms
proof (induction zs)
  case Nil
  have "cmp x y \<le> 0 \<or> cmp y x \<le> 0"
    using consistent_on_total[OF Nil(1), of x y] by auto
  with Nil(2) show ?case by auto
next
  case (Cons z zs)
  have sub: "consistent_on cmp (insert x (insert y (set zs)))"
    using Cons.prems(1) by (rule consistent_on_subset) auto
  note IH = Cons.IH[OF sub Cons.prems(2)]
  have xy: "cmp x y \<le> 0 \<or> cmp y x \<le> 0"
    using consistent_on_total[OF Cons.prems(1), of x y] by auto
  have mem: "x \<in> insert x (insert y (set (z # zs)))" "y \<in> insert x (insert y (set (z # zs)))"
    "z \<in> insert x (insert y (set (z # zs)))" by simp_all
  show ?case
  proof (cases "cmp x z \<le> 0")
    case xz: True
    show ?thesis
    proof (cases "cmp y z \<le> 0")
      case yz: True
      from xz yz xy Cons.prems(2) show ?thesis by auto
    next
      case yz: False
      then have zy: "cmp z y \<le> 0"
        using consistent_on_total[OF Cons.prems(1) mem(2) mem(3)] by simp
      have xy': "cmp x y \<le> 0"
        using consistent_on_trans[OF Cons.prems(1) mem(1) mem(3) mem(2) xz zy] .
      with Cons.prems(2) have "\<not> cmp y x \<le> 0" by simp
      with xz yz xy' show ?thesis by simp
    qed
  next
    case xz: False
    then have zx: "cmp z x \<le> 0"
      using consistent_on_total[OF Cons.prems(1) mem(1) mem(3)] by simp
    show ?thesis
    proof (cases "cmp y z \<le> 0")
      case yz: True
      have yx: "cmp y x \<le> 0"
        using consistent_on_trans[OF Cons.prems(1) mem(2) mem(3) mem(1) yz zx] .
      with Cons.prems(2) have "\<not> cmp x y \<le> 0" by simp
      with xz yz yx show ?thesis by simp
    next
      case yz: False
      with xz IH show ?thesis by simp
    qed
  qed
qed


lemma then_by_tie: "major a b \<le> 0 \<Longrightarrow> major b a \<le> 0 \<Longrightarrow> then_by major minor a b = minor a b"
  by (simp add: then_by_def)

lemma then_by_no_tie: "\<not> (major a b \<le> 0 \<and> major b a \<le> 0) \<Longrightarrow> then_by major minor a b = major a b"
  unfolding then_by_def by (rule if_not_P)

lemma then_by_le_major: "then_by major minor a b \<le> 0 \<Longrightarrow> major a b \<le> 0"
proof (cases "major a b \<le> 0 \<and> major b a \<le> 0")
  case True
  then show ?thesis by blast
next
  case False
  assume "then_by major minor a b \<le> 0"
  then show ?thesis by (simp only: then_by_no_tie[where major=major and a=a and b=b, OF False])
qed

lemma consistent_on_then_by:
  assumes "consistent_on major A" and "consistent_on minor A"
  shows "consistent_on (then_by major minor) A"
  unfolding consistent_on_def
proof (intro conjI ballI impI)
  fix a b assume mem: "a \<in> A" "b \<in> A"
  show "then_by major minor a b \<le> 0 \<or> then_by major minor b a \<le> 0"
  proof (cases "major a b \<le> 0 \<and> major b a \<le> 0")
    case True
    then have "then_by major minor a b = minor a b" "then_by major minor b a = minor b a"
      by (simp_all add: then_by_def)
    moreover have "minor a b \<le> 0 \<or> minor b a \<le> 0"
      using consistent_on_total[OF assms(2) mem] by blast
    ultimately show ?thesis by simp
  next
    case False
    then have "then_by major minor a b = major a b"
      by (rule then_by_no_tie[where major=major and a=a and b=b])
    moreover from False have "\<not> (major b a \<le> 0 \<and> major a b \<le> 0)" by blast
    then have "then_by major minor b a = major b a"
      by (rule then_by_no_tie[where major=major and a=b and b=a])
    moreover have "major a b \<le> 0 \<or> major b a \<le> 0"
      using consistent_on_total[OF assms(1) mem] by blast
    ultimately show ?thesis by simp
  qed
next
  fix a b c
  assume mem: "a \<in> A" "b \<in> A" "c \<in> A"
    and ab: "then_by major minor a b \<le> 0" and bc: "then_by major minor b c \<le> 0"
  note M = consistent_on_trans[OF assms(1)]
  note m = consistent_on_trans[OF assms(2)]
  from ab have ab1: "major a b \<le> 0" by (rule then_by_le_major)
  from bc have bc1: "major b c \<le> 0" by (rule then_by_le_major)
  from M[OF mem ab1 bc1] have ac1: "major a c \<le> 0" .
  show "then_by major minor a c \<le> 0"
  proof (cases "major c a \<le> 0")
    case False
    then have "\<not> (major a c \<le> 0 \<and> major c a \<le> 0)" by blast
    then have "then_by major minor a c = major a c"
      by (rule then_by_no_tie[where major=major and a=a and b=c])
    with ac1 show ?thesis by simp
  next
    case ca: True
    have ba: "major b a \<le> 0" using M[OF mem(2) mem(3) mem(1) bc1 ca] .
    have cb: "major c b \<le> 0" using M[OF mem(3) mem(1) mem(2) ca ab1] .
    from ab have "minor a b \<le> 0"
      by (simp only: then_by_tie[where major=major and a=a and b=b, OF ab1 ba])
    moreover from bc have "minor b c \<le> 0"
      by (simp only: then_by_tie[where major=major and a=b and b=c, OF bc1 cb])
    ultimately have "minor a c \<le> 0" using m[OF mem] by blast
    then show ?thesis
      by (simp only: then_by_tie[where major=major and a=a and b=c, OF ac1 ca])
  qed
qed

lemma stable_sort_insert_minor:
  assumes "consistent_on major (insert x (set ys))" and "consistent_on minor (insert x (set ys))"
  shows "stable_sort (then_by major minor) (insert_sorted minor x ys)
         = insert_sorted (then_by major minor) x (stable_sort (then_by major minor) ys)"
  using assms
proof (induction ys)
  case Nil
  then show ?case by simp
next
  case (Cons y ys)
  let ?L = "then_by major minor"
  show ?case
  proof (cases "minor x y \<le> 0")
    case True
    then show ?thesis by simp
  next
    case False
    have sub1: "consistent_on major (insert x (set ys))"
      using Cons.prems(1) by (rule consistent_on_subset) auto
    have sub2: "consistent_on minor (insert x (set ys))"
      using Cons.prems(2) by (rule consistent_on_subset) auto
    have "insert x (insert y (set (stable_sort ?L ys))) = insert x (set (y # ys))" by auto
    then have lex: "consistent_on ?L (insert x (insert y (set (stable_sort ?L ys))))"
      using consistent_on_then_by[OF Cons.prems] by (simp only:)
    have nt: "\<not> (?L x y \<le> 0 \<and> ?L y x \<le> 0)"
    proof (cases "major x y \<le> 0 \<and> major y x \<le> 0")
      case True
      then have "?L x y = minor x y" by (simp add: then_by_def)
      with False show ?thesis by simp
    next
      case nt: False
      then have "?L x y = major x y"
        by (rule then_by_no_tie[where major=major and a=x and b=y])
      moreover from nt have "\<not> (major y x \<le> 0 \<and> major x y \<le> 0)" by blast
      then have "?L y x = major y x"
        by (rule then_by_no_tie[where major=major and a=y and b=x])
      ultimately show ?thesis using nt by simp
    qed
    have "stable_sort ?L (insert_sorted minor x (y # ys))
          = insert_sorted ?L y (stable_sort ?L (insert_sorted minor x ys))"
      using False by simp
    also have "\<dots> = insert_sorted ?L y (insert_sorted ?L x (stable_sort ?L ys))"
      using Cons.IH[OF sub1 sub2] by simp
    also have "\<dots> = insert_sorted ?L x (insert_sorted ?L y (stable_sort ?L ys))"
      using insert_sorted_commute[OF lex nt] .
    finally show ?thesis by simp
  qed
qed

lemma stable_sort_after_minor:
  assumes "consistent_on major (set xs)" and "consistent_on minor (set xs)"
  shows "stable_sort (then_by major minor) (stable_sort minor xs) = stable_sort (then_by major minor) xs"
  using assms
proof (induction xs)
  case Nil
  then show ?case by simp
next
  case (Cons x xs)
  have sub1: "consistent_on major (set xs)"
    using Cons.prems(1) by (rule consistent_on_subset) auto
  have sub2: "consistent_on minor (set xs)"
    using Cons.prems(2) by (rule consistent_on_subset) auto
  have "stable_sort (then_by major minor) (insert_sorted minor x (stable_sort minor xs))
        = insert_sorted (then_by major minor) x (stable_sort (then_by major minor) (stable_sort minor xs))"
    using Cons.prems by (intro stable_sort_insert_minor) simp_all
  with Cons.IH[OF sub1 sub2] show ?case by simp
qed

lemma insert_sorted_cong:
  "(\<And>z. z \<in> set zs \<Longrightarrow> (c x z \<le> 0) = (d x z \<le> 0)) \<Longrightarrow> insert_sorted c x zs = insert_sorted d x zs"
  by (induction zs) auto

lemma stable_sort_minor_sorted:
  assumes "sorted_wrt (\<lambda>a b. minor a b \<le> 0) ys"
  shows "stable_sort (then_by major minor) ys = stable_sort major ys"
  using assms
proof (induction ys)
  case Nil
  then show ?case by simp
next
  case (Cons y ys)
  have "insert_sorted (then_by major minor) y (stable_sort major ys) = insert_sorted major y (stable_sort major ys)"
  proof (rule insert_sorted_cong)
    fix z assume "z \<in> set (stable_sort major ys)"
    with Cons.prems have "minor y z \<le> 0" by simp
    then show "(then_by major minor y z \<le> 0) = (major y z \<le> 0)"
      by (cases "major y z \<le> 0 \<and> major z y \<le> 0")
         (simp_all add: then_by_tie then_by_no_tie[where major=major and a=y and b=z])
  qed
  with Cons show ?case by simp
qed

lemma stable_sort_twice:
  assumes "consistent_on major (set xs)" and "consistent_on minor (set xs)"
  shows "stable_sort major (stable_sort minor xs) = stable_sort (then_by major minor) xs"
proof -
  have "sorted_wrt (\<lambda>a b. minor a b \<le> 0) (stable_sort minor xs)"
    using assms(2) by (rule sorted_stable_sort)
  then have "stable_sort major (stable_sort minor xs) = stable_sort (then_by major minor) (stable_sort minor xs)"
    by (simp add: stable_sort_minor_sorted)
  also have "\<dots> = stable_sort (then_by major minor) xs"
    using assms by (rule stable_sort_after_minor)
  finally show ?thesis .
qed


lemma insert_sorted_const: "insert_sorted (\<lambda>a b. 0) x ys = x # ys"
  by (cases ys) simp_all

lemma stable_sort_const: "stable_sort (\<lambda>a b. 0) xs = xs"
  by (induction xs) (simp_all add: insert_sorted_const)

lemma consistent_on_lex_cmp:
  "\<forall>c\<in>set cs. consistent_on c A \<Longrightarrow> consistent_on (lex_cmp cs) A"
proof (induction cs)
  case Nil
  then show ?case by (simp add: consistent_on_def)
next
  case (Cons c cs)
  then have "consistent_on (then_by c (lex_cmp cs)) A"
    by (intro consistent_on_then_by) simp_all
  then show ?case by simp
qed

lemma sort_passes:
  "\<forall>c\<in>set cs. consistent_on c (set xs) \<Longrightarrow>
   foldl (\<lambda>es c. stable_sort c es) xs cs = stable_sort (lex_cmp (rev cs)) xs"
proof (induction cs rule: rev_induct)
  case Nil
  show ?case by (simp add: stable_sort_const)
next
  case (snoc c cs)
  have "consistent_on (lex_cmp (rev cs)) (set xs)"
    using snoc.prems by (intro consistent_on_lex_cmp) simp
  moreover have "consistent_on c (set xs)" using snoc.prems by simp
  ultimately have "stable_sort c (stable_sort (lex_cmp (rev cs)) xs) = stable_sort (then_by c (lex_cmp (rev cs))) xs"
    by (intro stable_sort_twice)
  with snoc show ?case by simp
qed

section \<open>Writing and reading back an entry\<close>

text \<open>
  C1, as stated: every entry valid under the schema is read back deep-equal to what was
  written. The entry here has the required title and a property \<^verbatim>\<open>subtitle\<close> whose value
  is \<^verbatim>\<open>undefined\<close>; the validation accepts it, \<^verbatim>\<open>JSON.stringify\<close> leaves the property
  out, and \<^verbatim>\<open>getEntry\<close> returns an object without it.
\<close>

theorem setEntry_getEntry_undefined_counterexample:
  "validate example_runtime [''title'']
     (map (\<lambda>c. (name c, schema c)) (getCollections_internal example_api))
     (JObj [(''title'', JStr ''a''), (''subtitle'', JUndefined)]) = None \<and>
   fst (setEntry example_api example_runtime [] (Name ''posts'') ''1''
          (JObj [(''title'', JStr ''a''), (''subtitle'', JUndefined)])) = Inr () \<and>
   getEntry example_api example_runtime
     (snd (setEntry example_api example_runtime [] (Name ''posts'') ''1''
          (JObj [(''title'', JStr ''a''), (''subtitle'', JUndefined)])))
     (Name ''posts'') ''1'' None
   = Inr (JObj [(''title'', JStr ''a'')]) \<and>
   JObj [(''title'', JStr ''a'')] \<noteq> JObj [(''title'', JStr ''a''), (''subtitle'', JUndefined)] \<and>
   to_json (JObj [(''data'', JObj [(''title'', JStr ''a''), (''subtitle'', JUndefined)])])
   = JObj [(''data'', JObj [(''title'', JStr ''a'')])]"
  by (simp add: setEntry_def getEntry_def example_posts example_runtime_def example_validate_def
      example_stringify_def example_docs_def mkdir_def access_def writeFile_def readFile_def
      parse_data_def)

text \<open>
  C1, amended: an entry that the validation accepts and that JSON serialisation carries
  unchanged (parsing the text written for \<^verbatim>\<open>{ data: e }\<close> gives \<^verbatim>\<open>{ data: e }\<close> again, as
  it does for an entry without \<^verbatim>\<open>undefined\<close> values) is read back by \<^verbatim>\<open>getEntry\<close>
  (without \<^verbatim>\<open>include\<close>) exactly as \<^verbatim>\<open>setEntry\<close> wrote it, for every registered
  collection, every id and every state of the content directory.
\<close>

theorem setEntry_getEntry_roundtrip:
  assumes "getCollectionRef api c = Inr col"
    and "validate rt (schema col) (map (\<lambda>c. (name c, schema c)) (getCollections_internal api)) e = None"
    and "JSON_parse rt (JSON_stringify rt (JObj [(''data'', e)])) = Some (JObj [(''data'', e)])"
  shows "fst (setEntry api rt fs c eid e) = Inr () \<and>
         getEntry api rt (snd (setEntry api rt fs c eid e)) c eid None = Inr e"
proof -
  let ?fs = "writeFile (mkdir fs (name col)) (name col) (eid @ ''.json'') (JSON_stringify rt (JObj [(''data'', e)]))"
  have set: "setEntry api rt fs c eid e = (Inr (), ?fs)"
    using assms(1,2) by (simp add: setEntry_def Let_def)
  have "map_of (mkdir fs (name col)) (name col) \<noteq> None"
    by (simp add: map_of_mkdir_same)
  then have read: "readFile ?fs (name col) (eid @ ''.json'') = Some (JSON_stringify rt (JObj [(''data'', e)]))"
    by (simp add: readFile_writeFile)
  have "parse_data rt (JSON_stringify rt (JObj [(''data'', e)])) = Inr e"
    using assms(3) by (simp add: parse_data_def)
  with read assms(1) have "getEntry api rt ?fs c eid None = Inr e"
    by (simp add: getEntry_def)
  with set show ?thesis by simp
qed

theorem setEntry_getEntry_roundtrip_witness:
  "fst (setEntry example_api example_runtime [] (Name ''posts'') ''1''
          (JObj [(''title'', JStr ''a''), (''createdAt'', JStr ''2024-01-01''), (''rank'', JNum 2)])) = Inr () \<and>
   getEntry example_api example_runtime
     (snd (setEntry example_api example_runtime [] (Name ''posts'') ''1''
          (JObj [(''title'', JStr ''a''), (''createdAt'', JStr ''2024-01-01''), (''rank'', JNum 2)])))
     (Name ''posts'') ''1'' None
   = Inr (JObj [(''title'', JStr ''a''), (''createdAt'', JStr ''2024-01-01''), (''rank'', JNum 2)])"
proof -
  have 1: "getCollectionRef example_api (Name ''posts'') = Inr \<lparr> name = ''posts'', schema = [''title''] \<rparr>"
    by (simp add: getCollectionRef_def example_api_def new_LocalApi_def new_Map_def)
  have 2: "validate example_runtime (schema \<lparr> name = ''posts'', schema = [''title''] \<rparr>)
             (map (\<lambda>c. (name c, schema c)) (getCollections_internal example_api))
             (JObj [(''title'', JStr ''a''), (''createdAt'', JStr ''2024-01-01''), (''rank'', JNum 2)]) = None"
    by (simp add: example_runtime_def example_validate_def)
  have 3: "JSON_parse example_runtime (JSON_stringify example_runtime
             (JObj [(''data'', JObj [(''title'', JStr ''a''), (''createdAt'', JStr ''2024-01-01''), (''rank'', JNum 2)])]))
           = Some (JObj [(''data'', JObj [(''title'', JStr ''a''), (''createdAt'', JStr ''2024-01-01''), (''rank'', JNum 2)])])"
    by (simp add: example_runtime_def example_stringify_def example_docs_def)
  show ?thesis using setEntry_getEntry_roundtrip[OF 1 2 3] .
qed

section \<open>A rejected write\<close>

text \<open>
  C2, as stated: a payload that fails validation makes \<^verbatim>\<open>setEntry\<close> raise and leaves the
  on-disk state of the collection unchanged. The error is raised, but on a collection
  that has no directory yet the state is not the same afterwards: the directory has
  been made, and \<^verbatim>\<open>getEntries\<close> with \<^verbatim>\<open>includeCount\<close> answers differently before and
  after.
\<close>

theorem setEntry_rejected_counterexample:
  "fst (setEntry example_api example_runtime [] (Name ''posts'') ''1'' (JObj []))
     = Inl (Error ''data must have required property title'') \<and>
   snd (setEntry example_api example_runtime [] (Name ''posts'') ''1'' (JObj [])) \<noteq> [] \<and>
   map_sum (\<lambda>e. e) count (getEntries example_api example_runtime [] (Name ''posts'')
       (no_options \<lparr> o_includeCount := Some True \<rparr>)) = Inr None \<and>
   map_sum (\<lambda>e. e) count (getEntries example_api example_runtime
       (snd (setEntry example_api example_runtime [] (Name ''posts'') ''1'' (JObj []))) (Name ''posts'')
       (no_options \<lparr> o_includeCount := Some True \<rparr>)) = Inr (Some 0)"
  by (simp add: setEntry_def example_posts example_runtime_def example_validate_def mkdir_def
      access_def getEntries_def no_options_def readdir_def limit_of_def offset_of_def
      apply_filters_def paginate_def slice_def rel_index_def)

text \<open>
  C2, amended: a payload that fails validation makes \<^verbatim>\<open>setEntry\<close> raise an error whose
  message is the validator's error text; no file is written or overwritten (every file
  of every directory reads as before), and the only change on disk is that the
  directory of the collection has been made if it was absent.
\<close>

theorem setEntry_rejected_keeps_files:
  assumes "getCollectionRef api c = Inr col"
    and "validate rt (schema col) (map (\<lambda>c. (name c, schema c)) (getCollections_internal api)) payload = Some txt"
  shows "fst (setEntry api rt fs c eid payload) = Inl (Error txt) \<and>
         snd (setEntry api rt fs c eid payload) = mkdir fs (name col) \<and>
         (\<forall>d f. readFile (snd (setEntry api rt fs c eid payload)) d f = readFile fs d f) \<and>
         (\<forall>d. access (snd (setEntry api rt fs c eid payload)) d = (d = name col \<or> access fs d))"
  using assms by (simp add: setEntry_def Let_def readFile_mkdir access_mkdir_iff)

theorem setEntry_rejected_keeps_files_witness:
  "fst (setEntry example_api example_runtime [(''posts'', [(''1.json'', ''post-a'')])] (Name ''posts'') ''1'' (JObj []))
     = Inl (Error ''data must have required property title'') \<and>
   snd (setEntry example_api example_runtime [(''posts'', [(''1.json'', ''post-a'')])] (Name ''posts'') ''1'' (JObj []))
     = [(''posts'', [(''1.json'', ''post-a'')])]"
proof -
  have 2: "validate example_runtime (schema \<lparr> name = ''posts'', schema = [''title''] \<rparr>)
             (map (\<lambda>c. (name c, schema c)) (getCollections_internal example_api)) (JObj [])
           = Some ''data must have required property title''"
    by (simp add: example_runtime_def example_validate_def)
  show ?thesis
    using setEntry_rejected_keeps_files[OF example_posts 2, of "[(''posts'', [(''1.json'', ''post-a'')])]" "''1''"]
    by (simp add: mkdir_def access_def)
qed

section \<open>A name that is not in the registry\<close>

text \<open>
  A name that the registry does not hold makes every operation raise, whatever the
  content directory holds; so does the nested resolution of \<^verbatim>\<open>getEntries\<close>.
\<close>

lemma unregistered_collection_raises:
  assumes "map_of (collections api) r = None"
  shows "getCollectionRef api (Name r) = Inl (Error (''Collection '' @ r @ '' not found''))"
    and "getEntry api rt fs (Name r) eid incs = Inl (Error (''Collection '' @ r @ '' not found''))"
    and "getEntries api rt fs (Name r) opts = Inl (Error (''Collection '' @ r @ '' not found''))"
    and "fst (setEntry api rt fs (Name r) eid payload) = Inl (Error (''Collection '' @ r @ '' not found''))"
    and "fst (deleteEntry api fs (Name r) eid) = Inl (Error (''Collection '' @ r @ '' not found''))"
    and "getEntry_nested api rt fs (JStr r) v = Inl (Error (''Collection '' @ r @ '' not found''))"
  using assms
  by (simp_all add: getCollectionRef_def getEntry_def getEntries_def setEntry_def deleteEntry_def
      getEntry_nested_def)

lemma unregistered_global_raises:
  "map_of (globals api) r = None \<Longrightarrow>
   getGlobalRef api (GName r) = Inl (Error (''Global '' @ r @ '' not found''))"
  by (simp add: getGlobalRef_def)


text \<open>
  C3 at a failing input: the entry \<^verbatim>\<open>posts/1\<close> refers to the collection \<^verbatim>\<open>ghost\<close>, which
  is not registered. \<^verbatim>\<open>getEntry\<close> with \<^verbatim>\<open>include\<close> returns \<^verbatim>\<open>null\<close>, although the entry
  exists and reads well without \<^verbatim>\<open>include\<close>: the error of the nested call is caught by
  the \<^verbatim>\<open>try\<close> around it. \<^verbatim>\<open>getEntries\<close> raises it on the same data.
\<close>

theorem getEntry_include_unregistered:
  "getEntry example_api example_runtime [(''posts'', [(''1.json'', ''post-d'')])] (Name ''posts'') ''1''
     (Some [''author'']) = Inr JNull \<and>
   getEntry example_api example_runtime [(''posts'', [(''1.json'', ''post-d'')])] (Name ''posts'') ''1'' None
     = Inr (JObj [(''title'', JStr ''d''), (''author'', JObj [(''id'', JStr ''x''), (''collection'', JStr ''ghost'')])]) \<and>
   getEntries example_api example_runtime [(''posts'', [(''1.json'', ''post-d'')])] (Name ''posts'')
     (no_options \<lparr> o_include := Some [''author''] \<rparr>) = Inl (Error ''Collection ghost not found'')"
  by (simp add: getEntry_def getEntries_def example_posts example_ghost readFile_def parse_data_def
      example_runtime_def example_docs_def getEntry_nested_def access_def readdir_def
      endsWith_def apply_filters_def no_options_def paginate_def offset_of_def limit_of_def
      slice_def rel_index_def)

section \<open>The count of a listing\<close>

text \<open>
  Where the directory of the collection exists, the count is the number of entries left
  by the filter, before offset and limit, and it is there exactly when it was requested.
\<close>

lemma getEntries_count_directory:
  assumes "getEntries api rt fs c opts = Inr r"
    and "getCollectionRef api c = Inr col" and "access fs (name col)"
  shows "\<exists>files es0.
           readdir fs (name col) = Some files \<and>
           read_all rt fs (name col) (filter (\<lambda>file. endsWith file ''.json'') files) = Inr es0 \<and>
           count r = (if o_includeCount opts = Some True
                      then Some (length (apply_filters rt opts es0)) else None)"
  using assms
  by (auto simp: getEntries_def Let_def split: sum.splits option.splits)


text \<open>
  C6 at a failing input: the collection is registered and has no directory yet. The
  count was requested, and the early return for the missing directory leaves it out.
\<close>

theorem getEntries_missing_directory_count:
  "getEntries example_api example_runtime [] (Name ''posts'') (no_options \<lparr> o_includeCount := Some True \<rparr>)
   = Inr \<lparr> entries = [], limit = 1000, offset = 0, count = None \<rparr>"
  by (simp add: getEntries_def example_posts access_def no_options_def limit_of_def offset_of_def)


section \<open>Lengths and members of a listing\<close>

lemma length_filter_split: "length (filter (\<lambda>e. e \<noteq> u) es) + length (filter (\<lambda>e. e = u) es) = length es"
  by (induction es) auto

lemma sort_entries_length: "sort_entries rt srt es = Inr r \<Longrightarrow> length r = length es"
  by (auto simp: sort_entries_def Let_def length_filter_split split: if_splits)

lemma sort_loop_length: "sort_loop rt ks es = Inr r \<Longrightarrow> length r = length es"
proof (induction ks arbitrary: es)
  case Nil
  then show ?case by simp
next
  case (Cons k ks)
  then show ?case by (auto split: sum.splits dest: sort_entries_length)
qed

lemma sort_loop_Nil: "sort_loop rt ks [] = Inr []"
  by (induction ks) (simp_all add: sort_entries_def)

lemma include_all_length: "include_all api rt fs incs es = Inr r \<Longrightarrow> length r = length es"
  by (induction es arbitrary: r) (auto split: sum.splits)

lemma slice_length_le: "0 \<le> l \<Longrightarrow> length (slice xs 0 (Some l)) \<le> nat l"
  by (simp add: slice_def rel_index_def)

lemma slice_zero: "slice xs 0 (Some 0) = []"
  by (simp add: slice_def rel_index_def)

lemma getEntries_length:
  assumes "getEntries api rt fs c opts = Inr r"
  shows "limit r = limit_of opts \<and> (0 \<le> limit_of opts \<longrightarrow> length (entries r) \<le> nat (limit_of opts))"
proof -
  from assms obtain col where col: "getCollectionRef api c = Inr col"
    by (auto simp: getEntries_def split: sum.splits)
  show ?thesis
  proof (cases "access fs (name col)")
    case False
    with assms col show ?thesis by (auto simp: getEntries_def)
  next
    case True
    with assms col obtain files es0 es3 es4 where
      "readdir fs (name col) = Some files"
      and s: "sort_loop rt (case o_sort opts of None \<Rightarrow> [] | Some ss \<Rightarrow> ss) (paginate opts (apply_filters rt opts es0)) = Inr es3"
      and i: "(case o_include opts of None \<Rightarrow> Inr es3
               | Some incs \<Rightarrow> if incs = [] then Inr es3 else include_all api rt fs incs es3) = Inr es4"
      and r: "r = \<lparr> entries = es4, limit = limit_of opts, offset = offset_of opts,
                   count = (if o_includeCount opts = Some True then Some (length (apply_filters rt opts es0)) else None) \<rparr>"
      by (auto simp: getEntries_def Let_def split: sum.splits option.splits)
    from i have "length es4 = length es3"
      by (auto split: option.splits if_splits dest: include_all_length)
    also from s have "\<dots> = length (paginate opts (apply_filters rt opts es0))"
      by (rule sort_loop_length)
    finally have "length es4 = length (paginate opts (apply_filters rt opts es0))" .
    moreover have "0 \<le> limit_of opts \<longrightarrow> length (paginate opts (apply_filters rt opts es0)) \<le> nat (limit_of opts)"
      by (simp add: paginate_def slice_length_le)
    ultimately show ?thesis using r by simp
  qed
qed

lemma limit_files_zero: "limit_files (opts \<lparr> l_limit := Some 0 \<rparr>) files = limit_files (opts \<lparr> l_limit := None \<rparr>) files"
  by (simp add: limit_files_def)

lemma set_slice: "set (slice xs i j) \<subseteq> set xs"
  by (auto simp: slice_def Let_def dest!: in_set_takeD in_set_dropD)

lemma set_search_files: "set (search_files opts files) \<subseteq> set files"
  by (auto simp: search_files_def split: option.splits)

lemma set_start_after: "set (start_after opts files) \<subseteq> set files"
  using set_slice[of files] by (auto simp: start_after_def Let_def split: option.splits)

lemma set_limit_files: "set (limit_files opts files) \<subseteq> set files"
  using set_slice[of files] by (auto simp: limit_files_def split: option.splits)

lemma those_stat:
  assumes "\<And>x. x \<in> set xs \<Longrightarrow> \<exists>a. g x = Some a \<and> key a = x"
  shows "\<exists>as. those (map g xs) = Some as \<and> map key as = xs"
  using assms
proof (induction xs)
  case Nil
  then show ?case by simp
next
  case (Cons x xs)
  then obtain as where "those (map g xs) = Some as" "map key as = xs" by auto
  moreover from Cons.prems obtain a where "g x = Some a" "key a = x" by auto
  ultimately show ?case by simp
qed

lemma stat_asset_listed:
  assumes "readdir fs getAssetDir = Some files" and "f \<in> set files"
  shows "\<exists>a. stat_asset rt fs f = Some a \<and> key a = f"
proof -
  from assms(1) obtain fl where fl: "map_of fs getAssetDir = Some fl" "files = map fst fl"
    by (auto simp: readdir_def)
  with assms(2) have "map_of fl f \<noteq> None" by (simp add: map_of_eq_None_iff)
  then obtain bytes where "readFile fs getAssetDir f = Some bytes"
    using fl by (auto simp: readFile_def)
  then show ?thesis by (simp add: stat_asset_def Let_def)
qed

lemma listAssets_keys:
  "map key (listAssets rt fs opts) =
     (case readdir fs getAssetDir of
        None \<Rightarrow> []
      | Some files \<Rightarrow> limit_files opts (start_after opts (search_files opts files)))"
proof (cases "readdir fs getAssetDir")
  case None
  then show ?thesis by (simp add: listAssets_def)
next
  case (Some files)
  let ?sel = "limit_files opts (start_after opts (search_files opts files))"
  have "set ?sel \<subseteq> set files"
    using set_limit_files set_start_after set_search_files by (meson subset_trans)
  then have "\<And>x. x \<in> set ?sel \<Longrightarrow> \<exists>a. stat_asset rt fs x = Some a \<and> key a = x"
    using stat_asset_listed[OF Some] by blast
  then obtain as where "those (map (stat_asset rt fs) ?sel) = Some as" "map key as = ?sel"
    using those_stat by blast
  with Some show ?thesis by (simp add: listAssets_def)
qed

lemmas example_eval =
  getEntries_def example_posts access_def example_fs_def readdir_def endsWith_def
  readFile_def parse_data_def example_runtime_def example_docs_def apply_filters_def no_options_def
  paginate_def offset_of_def limit_of_def slice_def rel_index_def getAssetDir_def


section \<open>A limit of zero\<close>

text \<open>
  C10. \<^verbatim>\<open>getEntries\<close> honours a limit of 0: whatever it returns then has no entries and
  reports the limit 0; without a limit it reports 1000 and returns at most 1000
  entries. \<^verbatim>\<open>listAssets\<close> treats a limit of 0 as no limit: the result is that of the call
  without a limit, every file left by the search and the cursor.
\<close>

theorem limit_zero:
  "(getEntries api rt fs c (opts \<lparr> o_limit := Some 0 \<rparr>) = Inr r \<longrightarrow> entries r = [] \<and> limit r = 0) \<and>
   (getEntries api rt fs c (opts \<lparr> o_limit := None \<rparr>) = Inr r' \<longrightarrow> limit r' = 1000 \<and> length (entries r') \<le> 1000) \<and>
   listAssets rt fs (lopts \<lparr> l_limit := Some 0 \<rparr>) = listAssets rt fs (lopts \<lparr> l_limit := None \<rparr>) \<and>
   map key (listAssets rt fs (lopts \<lparr> l_limit := Some 0 \<rparr>))
     = (case readdir fs getAssetDir of None \<Rightarrow> []
        | Some files \<Rightarrow> start_after lopts (search_files lopts files))"
proof (intro conjI impI)
  assume "getEntries api rt fs c (opts \<lparr> o_limit := Some 0 \<rparr>) = Inr r"
  from getEntries_length[OF this] show "entries r = []" "limit r = 0"
    by (simp_all add: limit_of_def)
next
  assume "getEntries api rt fs c (opts \<lparr> o_limit := None \<rparr>) = Inr r'"
  from getEntries_length[OF this] show "limit r' = 1000" "length (entries r') \<le> 1000"
    by (simp_all add: limit_of_def)
next
  show "listAssets rt fs (lopts \<lparr> l_limit := Some 0 \<rparr>) = listAssets rt fs (lopts \<lparr> l_limit := None \<rparr>)"
    by (simp add: listAssets_def limit_files_def start_after_def search_files_def cong: option.case_cong)
next
  show "map key (listAssets rt fs (lopts \<lparr> l_limit := Some 0 \<rparr>))
     = (case readdir fs getAssetDir of None \<Rightarrow> []
        | Some files \<Rightarrow> start_after lopts (search_files lopts files))"
    by (simp add: listAssets_keys limit_files_def start_after_def search_files_def cong: option.case_cong)
qed

theorem limit_zero_witness:
  "getEntries example_api example_runtime example_fs (Name ''posts'') (no_options \<lparr> o_limit := Some 0 \<rparr>)
     = Inr \<lparr> entries = [], limit = 0, offset = 0, count = None \<rparr> \<and>
   map_sum (\<lambda>e. e) limit
     (getEntries example_api example_runtime example_fs (Name ''posts'') (no_options \<lparr> o_limit := None \<rparr>))
     = Inr 1000 \<and>
   map key (listAssets example_runtime example_fs (no_list_options \<lparr> l_limit := Some 0 \<rparr>))
     = [''a-logo.png'', ''b.png'', ''c-LOGO.png'', ''d.txt'']"
proof -
  let ?r = "\<lparr> entries = [], limit = 0, offset = 0, count = None \<rparr>"
  let ?r' = "\<lparr> entries =
        [JObj [(''title'', JStr ''a''), (''createdAt'', JStr ''2024-01-01''), (''rank'', JNum 2)],
         JObj [(''title'', JStr ''b''), (''createdAt'', JStr ''2024-03-01''), (''rank'', JNum 1)],
         JObj [(''title'', JStr ''c''), (''createdAt'', JNull), (''rank'', JNum 1)]],
        limit = 1000, offset = 0, count = None \<rparr>"
  have a: "getEntries example_api example_runtime example_fs (Name ''posts'') (no_options \<lparr> o_limit := Some 0 \<rparr>) = Inr ?r"
    by (simp add: example_eval)
  have b: "getEntries example_api example_runtime example_fs (Name ''posts'') (no_options \<lparr> o_limit := None \<rparr>) = Inr ?r'"
    by (simp add: example_eval)
  have c: "readdir example_fs getAssetDir = Some [''a-logo.png'', ''b.png'', ''c-LOGO.png'', ''d.txt'']"
    by (simp add: example_eval)
  have d: "map key (listAssets example_runtime example_fs (no_list_options \<lparr> l_limit := Some 0 \<rparr>))
           = (case readdir example_fs getAssetDir of None \<Rightarrow> []
              | Some files \<Rightarrow> start_after no_list_options (search_files no_list_options files))"
    using limit_zero[of example_api example_runtime example_fs "Name ''posts''" no_options ?r ?r' no_list_options]
    by blast
  have e: "map key (listAssets example_runtime example_fs (no_list_options \<lparr> l_limit := Some 0 \<rparr>))
           = [''a-logo.png'', ''b.png'', ''c-LOGO.png'', ''d.txt'']"
    unfolding d c by (simp add: start_after_def search_files_def no_list_options_def)
  show ?thesis
    using a b e by simp
qed

section \<open>The content type of an asset\<close>

text \<open>
  C8, as stated: with transform options the content type of \<^verbatim>\<open>photo.jpg\<close> is
  \<^verbatim>\<open>image/jpeg\<close> when no format is given and changes to the requested format when one
  is. It does not change: the image is converted to WebP here (the library returns
  other bytes), and the content type returned is still \<^verbatim>\<open>image/jpeg\<close>.
\<close>

theorem getAsset_format_counterexample:
  "map_option contentType
     (getAsset example_runtime [(''assets'', [(''photo.jpg'', ''pppp'')])] ''photo.jpg''
        (Some (no_asset_options \<lparr> a_format := Some Webp \<rparr>))) = Some (Some ''image/jpeg'') \<and>
   map_option data
     (getAsset example_runtime [(''assets'', [(''photo.jpg'', ''pppp'')])] ''photo.jpg''
        (Some (no_asset_options \<lparr> a_format := Some Webp \<rparr>))) = Some ''p'' \<and>
   toBuffer example_sharp [ToFormat Webp None] ''pppp'' = Some ''p''"
  by (simp add: getAsset_def readFile_def getAssetDir_def getContentType_def extname_def path_part_def
      toLowerCase_def lower_char_def contentTypes_def is_image_def startsWith_def example_runtime_def
      example_sharp_def wants_transform_def no_asset_options_def pipeline_def num_truthy_def Let_def)

text \<open>
  C8, amended: whatever the options, format included, the content type that \<^verbatim>\<open>getAsset\<close>
  returns is the one the table gives for the extension of the stored file name
  (\<^verbatim>\<open>image/jpeg\<close> for \<^verbatim>\<open>photo.jpg\<close>).
\<close>

theorem getAsset_contentType:
  assumes "getAsset rt fs fname options = Some r"
  shows "contentType r = getContentType fname"
  using assms
  by (auto simp: getAsset_def Let_def split: option.splits if_splits prod.splits)

theorem getAsset_contentType_witness:
  "map_option contentType
     (getAsset example_runtime [(''assets'', [(''photo.jpg'', ''pppp'')])] ''photo.jpg''
        (Some (no_asset_options \<lparr> a_width := Some 100 \<rparr>))) = Some (Some ''image/jpeg'')"
proof -
  have ct: "getContentType ''photo.jpg'' = Some ''image/jpeg''"
    by (simp add: getContentType_def extname_def path_part_def toLowerCase_def lower_char_def
        contentTypes_def Let_def)
  obtain r where r: "getAsset example_runtime [(''assets'', [(''photo.jpg'', ''pppp'')])] ''photo.jpg''
        (Some (no_asset_options \<lparr> a_width := Some 100 \<rparr>)) = Some r"
    by (simp add: getAsset_def readFile_def getAssetDir_def ct is_image_def startsWith_def
        example_runtime_def example_sharp_def wants_transform_def no_asset_options_def
        pipeline_def num_truthy_def Let_def)
  from getAsset_contentType[OF r] r ct show ?thesis by simp
qed

section \<open>Listing assets\<close>

lemma str_includes_empty: "str_includes s []"
  by (cases s) (simp_all add: startsWith_def)

lemma search_files_eq:
  "search_files opts files =
     (case l_search opts of None \<Rightarrow> files
      | Some s \<Rightarrow> filter (\<lambda>f. str_includes (toLowerCase f) (toLowerCase s)) files)"
  by (simp add: search_files_def toLowerCase_def str_includes_empty split: option.splits)

lemma drop_after_first:
  "drop (Suc (length (takeWhile (\<lambda>y. y \<noteq> a) xs))) xs = tl (dropWhile (\<lambda>y. y \<noteq> a) xs)"
  by (simp add: dropWhile_eq_drop tl_drop drop_Suc)

lemma slice_from: "slice xs (int n + 1) None = drop (Suc n) xs"
proof -
  have "nat (int n + 1) = Suc n" by simp
  then show ?thesis by (simp add: slice_def rel_index_def Let_def min_def)
qed

lemma start_after_eq:
  "start_after opts files =
     (case l_startAfter opts of None \<Rightarrow> files
      | Some a \<Rightarrow> if a \<noteq> [] \<and> a \<in> set files then tl (dropWhile (\<lambda>f. f \<noteq> a) files) else files)"
  by (simp add: start_after_def indexOf_def Let_def slice_from drop_after_first split: option.splits)

lemma slice_to:
  "slice xs 0 (Some l) = (if 0 \<le> l then take (nat l) xs else take (length xs - nat (- l)) xs)"
proof -
  have neg: "nat (max (int (length xs) + l) 0) = length xs - nat (- l)" if "l < 0"
    using that by arith
  have pos: "take (min a (length xs)) xs = take a xs" for a
    by (simp add: min_def)
  show ?thesis
    by (simp add: slice_def rel_index_def Let_def neg pos)
qed

lemma limit_files_eq:
  "limit_files opts files =
     (case l_limit opts of None \<Rightarrow> files
      | Some l \<Rightarrow> if l = 0 then files
                  else if 0 < l then take (nat l) files
                  else take (length files - nat (- l)) files)"
  by (simp add: limit_files_def slice_to split: option.splits)


text \<open>
  C9, as stated: the listing is filtered by the search, then cut to the file names
  strictly after the \<^verbatim>\<open>startAfter\<close> name in listing order, then truncated. Here the
  cursor \<^verbatim>\<open>b.png\<close> is the second file of the directory and does not match the search:
  the result still begins with \<^verbatim>\<open>a-logo.png\<close>, the file before the cursor.
\<close>

theorem listAssets_cursor_counterexample:
  "readdir example_fs getAssetDir = Some [''a-logo.png'', ''b.png'', ''c-LOGO.png'', ''d.txt''] \<and>
   map key (listAssets example_runtime example_fs
              \<lparr> l_search = Some ''logo'', l_limit = None, l_startAfter = Some ''b.png'' \<rparr>)
     = [''a-logo.png'', ''c-LOGO.png'']"
  by (simp add: listAssets_keys readdir_def example_fs_def getAssetDir_def search_files_eq
      start_after_eq limit_files_eq toLowerCase_def lower_char_def startsWith_def)

text \<open>
  C9, amended: the file names that \<^verbatim>\<open>listAssets\<close> returns are the directory listing,
  filtered to the names that contain the search string case-insensitively (when a search
  is given); then, when \<^verbatim>\<open>startAfter\<close> is given and occurs in the filtered list, cut to
  the names after its first occurrence there, and left as they are when it does not
  occur there; then truncated to the limit when one is given and is not 0 (a negative
  limit drops that many names from the end). So a search returns only names that
  contain it, and \<^verbatim>\<open>startAfter: "b.png", limit: 1\<close> on a listing where \<^verbatim>\<open>b.png\<close> has a
  successor returns that successor alone.
\<close>

theorem listAssets_pipeline:
  "map key (listAssets rt fs opts) =
     (case readdir fs getAssetDir of
        None \<Rightarrow> []
      | Some files \<Rightarrow>
          let found = (case l_search opts of
                         None \<Rightarrow> files
                       | Some s \<Rightarrow> filter (\<lambda>f. str_includes (toLowerCase f) (toLowerCase s)) files);
              later = (case l_startAfter opts of
                         None \<Rightarrow> found
                       | Some a \<Rightarrow>
                           if a \<noteq> [] \<and> a \<in> set found then tl (dropWhile (\<lambda>f. f \<noteq> a) found)
                           else found)
          in (case l_limit opts of
                None \<Rightarrow> later
              | Some l \<Rightarrow>
                  if l = 0 then later
                  else if 0 < l then take (nat l) later
                  else take (length later - nat (- l)) later)) \<and>
   (\<forall>a\<in>set (listAssets rt fs (opts \<lparr> l_search := Some s \<rparr>)).
      str_includes (toLowerCase (key a)) (toLowerCase s)) \<and>
   (readdir fs getAssetDir = Some (pre @ ''b.png'' # nxt # rest) \<and> ''b.png'' \<notin> set pre \<longrightarrow>
      map key (listAssets rt fs \<lparr> l_search = None, l_limit = Some 1, l_startAfter = Some ''b.png'' \<rparr>)
        = [nxt])"
proof (intro conjI ballI impI)
  show "map key (listAssets rt fs opts) =
     (case readdir fs getAssetDir of
        None \<Rightarrow> []
      | Some files \<Rightarrow>
          let found = (case l_search opts of
                         None \<Rightarrow> files
                       | Some s \<Rightarrow> filter (\<lambda>f. str_includes (toLowerCase f) (toLowerCase s)) files);
              later = (case l_startAfter opts of
                         None \<Rightarrow> found
                       | Some a \<Rightarrow>
                           if a \<noteq> [] \<and> a \<in> set found then tl (dropWhile (\<lambda>f. f \<noteq> a) found)
                           else found)
          in (case l_limit opts of
                None \<Rightarrow> later
              | Some l \<Rightarrow>
                  if l = 0 then later
                  else if 0 < l then take (nat l) later
                  else take (length later - nat (- l)) later))"
    by (simp add: listAssets_keys search_files_eq start_after_eq limit_files_eq Let_def
        cong: option.case_cong)
next
  fix a assume "a \<in> set (listAssets rt fs (opts \<lparr> l_search := Some s \<rparr>))"
  then have "key a \<in> set (map key (listAssets rt fs (opts \<lparr> l_search := Some s \<rparr>)))" by simp
  also have "\<dots> \<subseteq> (case readdir fs getAssetDir of None \<Rightarrow> {}
                    | Some files \<Rightarrow> set (search_files (opts \<lparr> l_search := Some s \<rparr>) files))"
    using set_limit_files[of "opts \<lparr> l_search := Some s \<rparr>"] set_start_after[of "opts \<lparr> l_search := Some s \<rparr>"]
    by (simp add: listAssets_keys split: option.splits) (meson subset_trans)
  finally show "str_includes (toLowerCase (key a)) (toLowerCase s)"
    by (auto simp: search_files_eq split: option.splits)
next
  assume "readdir fs getAssetDir = Some (pre @ ''b.png'' # nxt # rest) \<and> ''b.png'' \<notin> set pre"
  then have r: "readdir fs getAssetDir = Some (pre @ ''b.png'' # nxt # rest)"
    and "\<And>x. x \<in> set pre \<Longrightarrow> x \<noteq> ''b.png''" by auto
  then have "dropWhile (\<lambda>f. f \<noteq> ''b.png'') (pre @ ''b.png'' # nxt # rest) = ''b.png'' # nxt # rest"
    by (simp add: dropWhile_append2)
  with r show "map key (listAssets rt fs \<lparr> l_search = None, l_limit = Some 1, l_startAfter = Some ''b.png'' \<rparr>) = [nxt]"
    by (simp add: listAssets_keys search_files_eq start_after_eq limit_files_eq)
qed

theorem listAssets_pipeline_witness:
  "readdir example_fs getAssetDir = Some ([''a-logo.png''] @ ''b.png'' # ''c-LOGO.png'' # [''d.txt'']) \<and>
   ''b.png'' \<notin> set [''a-logo.png''] \<and>
   map key (listAssets example_runtime example_fs
              \<lparr> l_search = None, l_limit = Some 1, l_startAfter = Some ''b.png'' \<rparr>) = [''c-LOGO.png'']"
proof -
  have r: "readdir example_fs getAssetDir = Some ([''a-logo.png''] @ ''b.png'' # ''c-LOGO.png'' # [''d.txt''])"
    by (simp add: readdir_def example_fs_def getAssetDir_def)
  have n: "''b.png'' \<notin> set [''a-logo.png'']" by simp
  from listAssets_pipeline[of example_runtime example_fs no_list_options "[]" "[''a-logo.png'']" "''c-LOGO.png''" "[''d.txt'']"]
  have "readdir example_fs getAssetDir = Some ([''a-logo.png''] @ ''b.png'' # ''c-LOGO.png'' # [''d.txt'']) \<and>
        ''b.png'' \<notin> set [''a-logo.png''] \<longrightarrow>
      map key (listAssets example_runtime example_fs \<lparr> l_search = None, l_limit = Some 1, l_startAfter = Some ''b.png'' \<rparr>)
        = [''c-LOGO.png'']"
    by blast
  with r n show ?thesis by blast
qed

section \<open>Uploading an asset\<close>

lemma asset_names_mkdir: "asset_names (mkdir fs getAssetDir) = asset_names fs"
  by (auto simp: asset_names_def mkdir_def access_def map_add_def split: option.splits)

lemma asset_names_writeFile:
  "map_of fs getAssetDir \<noteq> None \<Longrightarrow>
   asset_names (writeFile fs getAssetDir f content) = insert f (asset_names fs)"
  by (auto simp: asset_names_def writeFile_def update_conv' dom_update split: option.splits)

lemma ensure_unique_free: "ensure_unique fs f final c \<notin> asset_names fs"
proof (induction fs f final c rule: ensure_unique.induct)
  case (1 fs f final c)
  show ?case
  proof (cases "file_exists fs getAssetDir final")
    case True
    with "1.IH" show ?thesis by (simp add: ensure_unique.simps[of fs f final c])
  next
    case False
    then show ?thesis by (simp add: ensure_unique.simps[of fs f final c] file_exists_names)
  qed
qed

lemma ensure_unique_form:
  "(final \<notin> asset_names fs \<and> ensure_unique fs f final c = final) \<or>
   (final \<in> asset_names fs \<and>
    (\<exists>k\<ge>c. ensure_unique fs f final c = suffixed f k \<and>
            (\<forall>j. c \<le> j \<and> j < k \<longrightarrow> suffixed f j \<in> asset_names fs)))"
proof (induction fs f final c rule: ensure_unique.induct)
  case (1 fs f final c)
  show ?case
  proof (cases "file_exists fs getAssetDir final")
    case False
    then show ?thesis by (simp add: ensure_unique.simps[of fs f final c] file_exists_names)
  next
    case True
    then have mem: "final \<in> asset_names fs" by (simp add: file_exists_names)
    have step: "ensure_unique fs f final c = ensure_unique fs f (suffixed f c) (c + 1)"
      using True by (simp add: ensure_unique.simps[of fs f final c])
    from "1.IH"[OF True] show ?thesis
    proof
      assume "suffixed f c \<notin> asset_names fs \<and> ensure_unique fs f (suffixed f c) (c + 1) = suffixed f c"
      then have "ensure_unique fs f final c = suffixed f c" using step by simp
      then have "\<exists>k\<ge>c. ensure_unique fs f final c = suffixed f k \<and>
            (\<forall>j. c \<le> j \<and> j < k \<longrightarrow> suffixed f j \<in> asset_names fs)"
        by (intro exI[of _ c]) auto
      with mem show ?thesis by blast
    next
      assume "suffixed f c \<in> asset_names fs \<and>
        (\<exists>k\<ge>c + 1. ensure_unique fs f (suffixed f c) (c + 1) = suffixed f k \<and>
            (\<forall>j. c + 1 \<le> j \<and> j < k \<longrightarrow> suffixed f j \<in> asset_names fs))"
      then obtain k where c: "suffixed f c \<in> asset_names fs" and k: "c + 1 \<le> k"
        and e: "ensure_unique fs f (suffixed f c) (c + 1) = suffixed f k"
        and a: "\<forall>j. c + 1 \<le> j \<and> j < k \<longrightarrow> suffixed f j \<in> asset_names fs"
        by blast
      have "\<forall>j. c \<le> j \<and> j < k \<longrightarrow> suffixed f j \<in> asset_names fs"
      proof (intro allI impI)
        fix j assume "c \<le> j \<and> j < k"
        then have "j = c \<or> (c + 1 \<le> j \<and> j < k)" by auto
        with c a show "suffixed f j \<in> asset_names fs" by blast
      qed
      with k e step have "\<exists>k\<ge>c. ensure_unique fs f final c = suffixed f k \<and>
            (\<forall>j. c \<le> j \<and> j < k \<longrightarrow> suffixed f j \<in> asset_names fs)"
        by (intro exI[of _ k]) auto
      with mem show ?thesis by blast
    qed
  qed
qed

lemma map_of_mkdir_assets: "map_of (mkdir fs getAssetDir) getAssetDir \<noteq> None"
  by (simp add: map_of_mkdir_same)

lemma uploadAsset_filename:
  "filename (fst (uploadAsset api fs file fname ctype)) = ensure_unique (mkdir fs getAssetDir) fname fname 1"
  by (simp add: uploadAsset_def Let_def)

lemma uploadAsset_fs:
  "snd (uploadAsset api fs file fname ctype)
   = writeFile (mkdir fs getAssetDir) getAssetDir (filename (fst (uploadAsset api fs file fname ctype))) file"
  by (simp add: uploadAsset_def Let_def)

lemma uploadAsset_fresh: "filename (fst (uploadAsset api fs file fname ctype)) \<notin> asset_names fs"
  using ensure_unique_free[of "mkdir fs getAssetDir" fname fname 1]
  by (simp add: uploadAsset_filename asset_names_mkdir)

lemma uploadAsset_readFile:
  "readFile (snd (uploadAsset api fs file fname ctype)) d f =
     (if d = getAssetDir \<and> f = filename (fst (uploadAsset api fs file fname ctype)) then Some file
      else readFile fs d f)"
  by (simp add: uploadAsset_fs readFile_writeFile map_of_mkdir_assets readFile_mkdir)

lemma uploadAsset_names:
  "asset_names (snd (uploadAsset api fs file fname ctype))
   = insert (filename (fst (uploadAsset api fs file fname ctype))) (asset_names fs)"
  by (simp add: uploadAsset_fs asset_names_writeFile map_of_mkdir_assets asset_names_mkdir)

lemma getAsset_plain_data:
  "map_option data (getAsset rt fs f None) = readFile fs getAssetDir f"
  by (auto simp: getAsset_def Let_def wants_transform_def split: option.splits prod.splits)

lemma suffixed_logo: "suffixed ''logo.png'' (Suc 0) = ''logo-1.png''"
  by (simp add: suffixed_def extname_def path_part_def basename_def endsWith_def Let_def
      show_nat.simps[of "Suc 0"] digit_char_def)


text \<open>
  C7. The upload loop always ends, with a name that no file of the assets directory
  has: the requested name when it is free, otherwise the first of \<^verbatim>\<open>base-1.ext\<close>,
  \<^verbatim>\<open>base-2.ext\<close>, ... that is free. The upload changes no file but the new one, which
  \<^verbatim>\<open>getAsset\<close> then returns. Two successive uploads under one requested name get two
  different names, and both files are returned by \<^verbatim>\<open>getAsset\<close> afterwards; when
  \<^verbatim>\<open>logo.png\<close> and \<^verbatim>\<open>logo-1.png\<close> are free at the start, the two uploads of \<^verbatim>\<open>logo.png\<close>
  are stored as \<^verbatim>\<open>logo.png\<close> and \<^verbatim>\<open>logo-1.png\<close>.
\<close>

theorem uploadAsset_never_overwrites:
  "let up1 = uploadAsset api fs file1 fname ctype1;
       up2 = uploadAsset api (snd up1) file2 fname ctype2
   in filename (fst up1) \<notin> asset_names fs \<and>
      (\<forall>d f. (d, f) \<noteq> (getAssetDir, filename (fst up1)) \<longrightarrow> readFile (snd up1) d f = readFile fs d f) \<and>
      ((fname \<notin> asset_names fs \<and> filename (fst up1) = fname) \<or>
       (fname \<in> asset_names fs \<and>
        (\<exists>k\<ge>1. filename (fst up1) = suffixed fname k \<and>
                (\<forall>j. 1 \<le> j \<and> j < k \<longrightarrow> suffixed fname j \<in> asset_names fs)))) \<and>
      map_option data (getAsset rt (snd up1) (filename (fst up1)) None) = Some file1 \<and>
      filename (fst up2) \<noteq> filename (fst up1) \<and>
      map_option data (getAsset rt (snd up2) (filename (fst up1)) None) = Some file1 \<and>
      map_option data (getAsset rt (snd up2) (filename (fst up2)) None) = Some file2 \<and>
      (fname = ''logo.png'' \<and> ''logo.png'' \<notin> asset_names fs \<and> ''logo-1.png'' \<notin> asset_names fs \<longrightarrow>
         filename (fst up1) = ''logo.png'' \<and> filename (fst up2) = ''logo-1.png'')"
proof -
  define up1 where "up1 = uploadAsset api fs file1 fname ctype1"
  define up2 where "up2 = uploadAsset api (snd up1) file2 fname ctype2"
  have fresh1: "filename (fst up1) \<notin> asset_names fs"
    unfolding up1_def by (rule uploadAsset_fresh)
  have keep1: "\<forall>d f. (d, f) \<noteq> (getAssetDir, filename (fst up1)) \<longrightarrow> readFile (snd up1) d f = readFile fs d f"
    unfolding up1_def by (simp add: uploadAsset_readFile)
  have form1: "(fname \<notin> asset_names fs \<and> filename (fst up1) = fname) \<or>
       (fname \<in> asset_names fs \<and>
        (\<exists>k\<ge>1. filename (fst up1) = suffixed fname k \<and>
                (\<forall>j. 1 \<le> j \<and> j < k \<longrightarrow> suffixed fname j \<in> asset_names fs)))"
    using ensure_unique_form[of fname "mkdir fs getAssetDir" fname 1]
    unfolding up1_def by (simp add: uploadAsset_filename asset_names_mkdir)
  have get1: "map_option data (getAsset rt (snd up1) (filename (fst up1)) None) = Some file1"
    unfolding up1_def by (simp add: getAsset_plain_data uploadAsset_readFile)
  have "filename (fst up2) \<notin> asset_names (snd up1)"
    unfolding up2_def by (rule uploadAsset_fresh)
  then have distinct: "filename (fst up2) \<noteq> filename (fst up1)"
    unfolding up1_def by (simp add: uploadAsset_names)
  have get21: "map_option data (getAsset rt (snd up2) (filename (fst up1)) None) = Some file1"
    using distinct unfolding up2_def
    by (simp add: getAsset_plain_data uploadAsset_readFile[of api "snd up1"])
       (simp add: up1_def uploadAsset_readFile)
  have get22: "map_option data (getAsset rt (snd up2) (filename (fst up2)) None) = Some file2"
    unfolding up2_def by (simp add: getAsset_plain_data uploadAsset_readFile)
  have logo: "filename (fst up1) = ''logo.png'' \<and> filename (fst up2) = ''logo-1.png''"
    if "fname = ''logo.png''" "''logo.png'' \<notin> asset_names fs" "''logo-1.png'' \<notin> asset_names fs"
  proof -
    from form1 that have n1: "filename (fst up1) = ''logo.png''" by simp
    then have names1: "asset_names (snd up1) = insert ''logo.png'' (asset_names fs)"
      unfolding up1_def using uploadAsset_names[of api fs file1 fname ctype1] by simp
    have e: "file_exists (mkdir (snd up1) getAssetDir) getAssetDir ''logo.png''"
      by (simp add: file_exists_names asset_names_mkdir names1)
    have ne: "\<not> file_exists (mkdir (snd up1) getAssetDir) getAssetDir ''logo-1.png''"
      using that(3) by (simp add: file_exists_names asset_names_mkdir names1)
    have "filename (fst up2) = ensure_unique (mkdir (snd up1) getAssetDir) ''logo.png'' ''logo.png'' 1"
      unfolding up2_def using that(1) by (simp add: uploadAsset_filename)
    also have "\<dots> = ensure_unique (mkdir (snd up1) getAssetDir) ''logo.png'' ''logo-1.png'' 2"
      using e by (subst ensure_unique.simps) (simp add: suffixed_logo numeral_2_eq_2)
    also have "\<dots> = ''logo-1.png''"
      using ne by (subst ensure_unique.simps) simp
    finally show ?thesis using n1 by simp
  qed
  show ?thesis
    unfolding Let_def up1_def[symmetric] up2_def[symmetric]
    using fresh1 keep1 form1 get1 distinct get21 get22 logo by blast
qed


lemma example_asset_names:
  "asset_names example_fs = {''a-logo.png'', ''b.png'', ''c-LOGO.png'', ''d.txt''}"
  by (simp add: asset_names_def example_fs_def getAssetDir_def)

theorem uploadAsset_never_overwrites_witness:
  "''logo.png'' \<notin> asset_names example_fs \<and> ''logo-1.png'' \<notin> asset_names example_fs \<and>
   filename (fst (uploadAsset example_api example_fs ''one'' ''logo.png'' None)) = ''logo.png'' \<and>
   filename (fst (uploadAsset example_api
       (snd (uploadAsset example_api example_fs ''one'' ''logo.png'' None)) ''two'' ''logo.png'' None))
     = ''logo-1.png'' \<and>
   map_option data (getAsset example_runtime
       (snd (uploadAsset example_api
          (snd (uploadAsset example_api example_fs ''one'' ''logo.png'' None)) ''two'' ''logo.png'' None))
       ''logo.png'' None) = Some ''one'' \<and>
   map_option data (getAsset example_runtime
       (snd (uploadAsset example_api
          (snd (uploadAsset example_api example_fs ''one'' ''logo.png'' None)) ''two'' ''logo.png'' None))
       ''logo-1.png'' None) = Some ''two'' \<and>
   readFile (snd (uploadAsset example_api
          (snd (uploadAsset example_api example_fs ''one'' ''logo.png'' None)) ''two'' ''logo.png'' None))
       getAssetDir ''b.png'' = Some ''bb''"
proof -
  have free: "''logo.png'' \<notin> asset_names example_fs" "''logo-1.png'' \<notin> asset_names example_fs"
    by (simp_all add: example_asset_names)
  note upl = uploadAsset_never_overwrites[of example_api example_fs "''one''" "''logo.png''" None
      "''two''" None example_runtime, unfolded Let_def]
  from upl free have names:
    "filename (fst (uploadAsset example_api example_fs ''one'' ''logo.png'' None)) = ''logo.png''"
    "filename (fst (uploadAsset example_api
       (snd (uploadAsset example_api example_fs ''one'' ''logo.png'' None)) ''two'' ''logo.png'' None))
     = ''logo-1.png''"
    by blast+
  from upl have gets:
    "map_option data (getAsset example_runtime
       (snd (uploadAsset example_api
          (snd (uploadAsset example_api example_fs ''one'' ''logo.png'' None)) ''two'' ''logo.png'' None))
       (filename (fst (uploadAsset example_api example_fs ''one'' ''logo.png'' None))) None) = Some ''one''"
    "map_option data (getAsset example_runtime
       (snd (uploadAsset example_api
          (snd (uploadAsset example_api example_fs ''one'' ''logo.png'' None)) ''two'' ''logo.png'' None))
       (filename (fst (uploadAsset example_api
          (snd (uploadAsset example_api example_fs ''one'' ''logo.png'' None)) ''two'' ''logo.png'' None))) None)
     = Some ''two''"
    by blast+
  have b: "readFile (snd (uploadAsset example_api
          (snd (uploadAsset example_api example_fs ''one'' ''logo.png'' None)) ''two'' ''logo.png'' None))
       getAssetDir ''b.png'' = Some ''bb''"
    by (simp add: uploadAsset_readFile names) (simp add: readFile_def example_fs_def getAssetDir_def)
  show ?thesis using free names gets b by simp
qed

section \<open>Entries after the resolution of references\<close>

lemma same_fields_refl: "same_fields e e"
  by (simp add: same_fields_def)

lemma same_fields_trans: "same_fields a b \<Longrightarrow> same_fields b c \<Longrightarrow> same_fields a c"
  unfolding same_fields_def
proof (intro conjI allI)
  assume ab: "(a = JUndefined) = (b = JUndefined) \<and>
     (\<forall>k. get_prop b k = get_prop a k \<or> (\<exists>kvs kvs'. get_prop a k = JObj kvs \<and> get_prop b k = JObj kvs'))"
    and bc: "(b = JUndefined) = (c = JUndefined) \<and>
     (\<forall>k. get_prop c k = get_prop b k \<or> (\<exists>kvs kvs'. get_prop b k = JObj kvs \<and> get_prop c k = JObj kvs'))"
  from ab bc show "(a = JUndefined) = (c = JUndefined)" by blast
  fix k
  from ab have 1: "get_prop b k = get_prop a k \<or> (\<exists>kvs kvs'. get_prop a k = JObj kvs \<and> get_prop b k = JObj kvs')"
    by blast
  from bc have 2: "get_prop c k = get_prop b k \<or> (\<exists>kvs kvs'. get_prop b k = JObj kvs \<and> get_prop c k = JObj kvs')"
    by blast
  from 1 2 show "get_prop c k = get_prop a k \<or> (\<exists>kvs kvs'. get_prop a k = JObj kvs \<and> get_prop c k = JObj kvs')"
    by (elim disjE exE conjE) simp_all
qed

lemma truthy_prop_obj: "truthy (get_prop v k) \<Longrightarrow> \<exists>kvs. v = JObj kvs"
  by (cases v) simp_all

lemma same_fields_set_prop:
  assumes "get_prop e inc = JObj kvs"
  shows "same_fields e (set_prop e inc (JObj kvs'))"
proof -
  from assms obtain fields where e: "e = JObj fields" by (cases e) simp_all
  show ?thesis
    unfolding same_fields_def
  proof (intro conjI allI)
    show "(e = JUndefined) = (set_prop e inc (JObj kvs') = JUndefined)" by (simp add: e)
    fix k
    show "get_prop (set_prop e inc (JObj kvs')) k = get_prop e k \<or>
          (\<exists>a b. get_prop e k = JObj a \<and> get_prop (set_prop e inc (JObj kvs')) k = JObj b)"
      using assms by (cases "k = inc") (simp_all add: e update_conv')
  qed
qed

lemma resolveIncludes_same_fields:
  "resolveIncludes api rt fs e incs = Inr e' \<Longrightarrow> same_fields e e'"
proof (induction incs arbitrary: e)
  case Nil
  then show ?case by (simp add: same_fields_refl)
next
  case (Cons inc incs)
  show ?case
  proof (cases "truthy (get_prop (get_prop e inc) ''id'') \<and> truthy (get_prop (get_prop e inc) ''collection'')")
    case False
    with Cons.prems have "resolveIncludes api rt fs e incs = Inr e'"
      by (auto simp: Let_def split: if_splits)
    then show ?thesis by (rule Cons.IH)
  next
    case True
    then obtain kvs where v: "get_prop e inc = JObj kvs"
      using truthy_prop_obj by blast
    from True Cons.prems obtain other where
      r: "resolveIncludes api rt fs (set_prop e inc (set_prop (get_prop e inc) ''entry'' other)) incs = Inr e'"
      by (auto simp: Let_def split: if_splits sum.splits)
    have "same_fields e (set_prop e inc (set_prop (get_prop e inc) ''entry'' other))"
      using same_fields_set_prop[OF v] by (simp add: v)
    moreover from r have "same_fields (set_prop e inc (set_prop (get_prop e inc) ''entry'' other)) e'"
      by (rule Cons.IH)
    ultimately show ?thesis by (rule same_fields_trans)
  qed
qed

lemma include_all_same_fields:
  "include_all api rt fs incs es = Inr es' \<Longrightarrow> list_all2 same_fields es es'"
proof (induction es arbitrary: es')
  case Nil
  then show ?case by simp
next
  case (Cons e es)
  then show ?case
    by (auto split: sum.splits dest: resolveIncludes_same_fields)
qed

lemma compare_values_obj:
  "compare_values rt d (JObj a) w = compare_values rt d (JObj a') w"
  "compare_values rt d w (JObj a) = compare_values rt d w (JObj a')"
  by (cases w; simp add: string_compare_def)+

lemma compare_entries_same_fields:
  assumes "same_fields a a'" and "same_fields b b'"
  shows "compare_entries rt srt a' b' = compare_entries rt srt a b"
proof -
  from assms(1) have A: "get_prop a' (fst srt) = get_prop a (fst srt) \<or>
      (\<exists>x y. get_prop a (fst srt) = JObj x \<and> get_prop a' (fst srt) = JObj y)"
    unfolding same_fields_def by blast
  from assms(2) have B: "get_prop b' (fst srt) = get_prop b (fst srt) \<or>
      (\<exists>x y. get_prop b (fst srt) = JObj x \<and> get_prop b' (fst srt) = JObj y)"
    unfolding same_fields_def by blast
  from A B show ?thesis
  proof (elim disjE exE conjE)
    assume "get_prop a' (fst srt) = get_prop a (fst srt)" "get_prop b' (fst srt) = get_prop b (fst srt)"
    then show ?thesis by (simp add: compare_entries_def)
  next
    fix x y
    assume "get_prop a' (fst srt) = get_prop a (fst srt)" "get_prop b (fst srt) = JObj x" "get_prop b' (fst srt) = JObj y"
    then show ?thesis using compare_values_obj(2)[of rt _ _ x y]
      by (simp add: compare_entries_def Let_def)
  next
    fix x y
    assume "get_prop b' (fst srt) = get_prop b (fst srt)" "get_prop a (fst srt) = JObj x" "get_prop a' (fst srt) = JObj y"
    then show ?thesis using compare_values_obj(1)[of rt _ x _ y]
      by (simp add: compare_entries_def Let_def)
  next
    fix x y u v
    assume "get_prop a (fst srt) = JObj x" "get_prop a' (fst srt) = JObj y"
      "get_prop b (fst srt) = JObj u" "get_prop b' (fst srt) = JObj v"
    then show ?thesis
      by (simp add: compare_entries_def Let_def string_compare_def)
  qed
qed


lemma lex_cmp_same_fields:
  assumes "same_fields a a'" and "same_fields b b'"
  shows "lex_cmp (map (compare_entries rt) ks) a' b' = lex_cmp (map (compare_entries rt) ks) a b"
proof (induction ks)
  case Nil
  show ?case by simp
next
  case (Cons k ks)
  have "compare_entries rt k a' b' = compare_entries rt k a b"
    "compare_entries rt k b' a' = compare_entries rt k b a"
    using assms by (simp_all add: compare_entries_same_fields)
  with Cons show ?case by (simp add: then_by_def)
qed

lemma sort_entries_Inr:
  "sort_entries rt srt es = Inr r \<Longrightarrow>
   r = stable_sort (compare_entries rt srt) (filter (\<lambda>e. e \<noteq> JUndefined) es) @ filter (\<lambda>e. e = JUndefined) es"
  by (auto simp: sort_entries_def Let_def split: if_splits)

lemma filter_defined_sorted:
  "filter (\<lambda>e. e \<noteq> JUndefined) (stable_sort c (filter (\<lambda>e. e \<noteq> JUndefined) es) @ filter (\<lambda>e. e = JUndefined) es)
   = stable_sort c (filter (\<lambda>e. e \<noteq> JUndefined) es)"
proof -
  have "filter (\<lambda>e. e \<noteq> JUndefined) (stable_sort c (filter (\<lambda>e. e \<noteq> JUndefined) es))
        = stable_sort c (filter (\<lambda>e. e \<noteq> JUndefined) es)"
    by (rule filter_True) simp
  moreover have "filter (\<lambda>e. e \<noteq> JUndefined) (filter (\<lambda>e. e = JUndefined) es) = []"
    by (simp add: filter_empty_conv)
  ultimately show ?thesis by simp
qed

lemma filter_undefined_sorted:
  "filter (\<lambda>e. e = JUndefined) (stable_sort c (filter (\<lambda>e. e \<noteq> JUndefined) es) @ filter (\<lambda>e. e = JUndefined) es)
   = filter (\<lambda>e. e = JUndefined) es"
proof -
  have "filter (\<lambda>e. e = JUndefined) (stable_sort c (filter (\<lambda>e. e \<noteq> JUndefined) es)) = []"
    by (simp add: filter_empty_conv)
  then show ?thesis by simp
qed

lemma sort_loop_passes:
  "sort_loop rt ks es = Inr r \<Longrightarrow> ks \<noteq> [] \<Longrightarrow>
   r = foldl (\<lambda>es c. stable_sort c es) (filter (\<lambda>e. e \<noteq> JUndefined) es) (map (compare_entries rt) ks)
       @ filter (\<lambda>e. e = JUndefined) es"
proof (induction ks arbitrary: es)
  case Nil
  then show ?case by simp
next
  case (Cons k ks)
  from Cons.prems(1) obtain es' where k: "sort_entries rt k es = Inr es'" and rest: "sort_loop rt ks es' = Inr r"
    by (auto split: sum.splits)
  note es' = sort_entries_Inr[OF k]
  show ?case
  proof (cases "ks = []")
    case True
    with rest es' show ?thesis by simp
  next
    case False
    from Cons.IH[OF rest False] show ?thesis
      by (simp add: es' filter_defined_sorted filter_undefined_sorted)
  qed
qed

lemma list_all2_filter:
  assumes "list_all2 R xs ys" and "\<And>x y. R x y \<Longrightarrow> P x = Q y"
  shows "list_all2 R (filter P xs) (filter Q ys)"
  using assms(1)
proof (induction rule: list_all2_induct)
  case Nil
  then show ?case by simp
next
  case (Cons x xs y ys)
  with assms(2)[of x y] show ?case by simp
qed

lemma list_all2_image:
  assumes "list_all2 R xs ys" and "y \<in> set ys"
  shows "\<exists>x\<in>set xs. R x y"
proof -
  from assms(2) obtain i where i: "i < length ys" "ys ! i = y"
    by (auto simp: in_set_conv_nth)
  from assms(1) i(1) have "R (xs ! i) (ys ! i)" by (rule list_all2_nthD2)
  moreover from assms(1) i(1) have "i < length xs" by (simp add: list_all2_lengthD)
  then have "xs ! i \<in> set xs" by (rule nth_mem)
  ultimately show ?thesis using i(2) by blast
qed

lemma list_all2_preimage:
  assumes "list_all2 R xs ys" and "x \<in> set xs"
  shows "\<exists>y\<in>set ys. R x y"
proof -
  from assms(2) obtain i where i: "i < length xs" "xs ! i = x"
    by (auto simp: in_set_conv_nth)
  from assms(1) i(1) have "R (xs ! i) (ys ! i)" by (rule list_all2_nthD)
  moreover from assms(1) i(1) have "i < length ys" by (simp add: list_all2_lengthD)
  then have "ys ! i \<in> set ys" by (rule nth_mem)
  ultimately show ?thesis using i(2) by blast
qed

lemma sorted_wrt_transfer:
  assumes "list_all2 R xs ys" and "sorted_wrt P xs" and "set ys \<subseteq> B"
    and "\<And>x y x' y'. R x x' \<Longrightarrow> R y y' \<Longrightarrow> x' \<in> B \<Longrightarrow> y' \<in> B \<Longrightarrow> P x y \<Longrightarrow> P' x' y'"
  shows "sorted_wrt P' ys"
  using assms(1,2,3)
proof (induction rule: list_all2_induct)
  case Nil
  then show ?case by simp
next
  case (Cons x xs y ys)
  from Cons.prems(2) have yB: "y \<in> B" and sub: "set ys \<subseteq> B" by simp_all
  have "\<forall>z\<in>set ys. P' y z"
  proof
    fix z assume z: "z \<in> set ys"
    from list_all2_image[OF Cons.hyps(2) z] obtain w where w: "w \<in> set xs" "R w z"
      by blast
    with Cons.prems(1) have "P x w" by simp
    from z sub have "z \<in> B" by blast
    from assms(4)[OF Cons.hyps(1) w(2) yB this \<open>P x w\<close>] show "P' y z" .
  qed
  moreover from Cons.prems(1) have "sorted_wrt P xs" by simp
  then have "sorted_wrt P' ys" using sub by (rule Cons.IH)
  ultimately show ?case by simp
qed

lemma consistent_on_transfer:
  assumes "consistent_on cmp B"
    and "\<And>a. a \<in> A \<Longrightarrow> \<exists>a'\<in>B. R a a'"
    and "\<And>a a' b b'. R a a' \<Longrightarrow> R b b' \<Longrightarrow> cmp a b = cmp a' b'"
  shows "consistent_on cmp A"
  unfolding consistent_on_def
proof (intro conjI ballI impI)
  fix a b assume ab: "a \<in> A" "b \<in> A"
  from assms(2)[OF ab(1)] obtain a' where a': "a' \<in> B" "R a a'" by blast
  from assms(2)[OF ab(2)] obtain b' where b': "b' \<in> B" "R b b'" by blast
  have "cmp a' b' \<le> 0 \<or> cmp b' a' \<le> 0"
    using consistent_on_total[OF assms(1) a'(1) b'(1)] by blast
  then show "cmp a b \<le> 0 \<or> cmp b a \<le> 0"
    by (simp only: assms(3)[OF a'(2) b'(2)] assms(3)[OF b'(2) a'(2)])
next
  fix a b c assume abc: "a \<in> A" "b \<in> A" "c \<in> A" and le: "cmp a b \<le> 0" "cmp b c \<le> 0"
  from assms(2)[OF abc(1)] obtain a' where a': "a' \<in> B" "R a a'" by blast
  from assms(2)[OF abc(2)] obtain b' where b': "b' \<in> B" "R b b'" by blast
  from assms(2)[OF abc(3)] obtain c' where c': "c' \<in> B" "R c c'" by blast
  from le have "cmp a' b' \<le> 0" "cmp b' c' \<le> 0"
    by (simp_all only: assms(3)[OF a'(2) b'(2)] assms(3)[OF b'(2) c'(2)])
  then have "cmp a' c' \<le> 0"
    by (rule consistent_on_trans[OF assms(1) a'(1) b'(1) c'(1)])
  then show "cmp a c \<le> 0" by (simp only: assms(3)[OF a'(2) c'(2)])
qed

text \<open>What \<^verbatim>\<open>getEntries\<close> returns, in terms of its sort loop.\<close>

lemma getEntries_sorted_page:
  assumes "getEntries api rt fs c opts = Inr r" and "o_sort opts = Some ks" and "ks \<noteq> []"
  shows "\<exists>page sorted. sort_loop rt ks page = Inr sorted \<and> list_all2 same_fields sorted (entries r)"
proof -
  from assms(1) obtain col where col: "getCollectionRef api c = Inr col"
    by (auto simp: getEntries_def split: sum.splits)
  show ?thesis
  proof (cases "access fs (name col)")
    case False
    with assms(1) col have "entries r = []" by (auto simp: getEntries_def)
    moreover have "sort_loop rt ks [] = Inr []" by (rule sort_loop_Nil)
    ultimately show ?thesis by (intro exI[of _ "[]"]) simp
  next
    case True
    with assms(1,2) col obtain es0 es3 where
      s: "sort_loop rt ks (paginate opts (apply_filters rt opts es0)) = Inr es3"
      and i: "(case o_include opts of None \<Rightarrow> Inr es3
               | Some incs \<Rightarrow> if incs = [] then Inr es3 else include_all api rt fs incs es3) = Inr (entries r)"
      by (auto simp: getEntries_def Let_def split: sum.splits option.splits)
    from i have "list_all2 same_fields es3 (entries r)"
      by (auto split: option.splits if_splits dest: include_all_same_fields
          simp: list_all2_same same_fields_refl)
    with s show ?thesis by blast
  qed
qed


lemma set_sort_passes: "set (foldl (\<lambda>es c. stable_sort c es) xs cs) = set xs"
  by (induction cs arbitrary: xs) simp_all

lemma lex_cmp_le_major: "lex_cmp (c # cs) a b \<le> 0 \<Longrightarrow> c a b \<le> 0"
  by (simp add: then_by_le_major)

lemmas sort_eval =
  example_eval sort_entries_def stable_sort_def compare_entries_def string_compare_def Let_def
  post_a_def post_b_def post_c_def


section \<open>Several sort keys\<close>

text \<open>
  The comparator of a key orders consistently every set of entries whose field is
  numeric; so it does where the field is dated (shown further down). Over fields of
  mixed types it need not.
\<close>

lemma compare_entries_numeric:
  assumes "numeric k a" and "numeric k b"
  shows "compare_entries rt (k, d) a b =
           (if nullish (get_prop a k) \<and> nullish (get_prop b k) then 0
            else if nullish (get_prop a k) then (if d = Asc then - 1 else 1)
            else if nullish (get_prop b k) then (if d = Asc then 1 else - 1)
            else (case (get_prop a k, get_prop b k) of
                    (JNum x, JNum y) \<Rightarrow> if d = Asc then x - y else y - x
                  | _ \<Rightarrow> 0))"
  using assms by (auto simp: compare_entries_def numeric_def Let_def)

lemma consistent_on_numeric:
  assumes "\<forall>e\<in>A. numeric k e"
  shows "consistent_on (compare_entries rt (k, d)) A"
  unfolding consistent_on_def
proof (intro conjI ballI impI)
  fix a b assume "a \<in> A" "b \<in> A"
  with assms have n: "numeric k a" "numeric k b" by blast+
  show "compare_entries rt (k, d) a b \<le> 0 \<or> compare_entries rt (k, d) b a \<le> 0"
    unfolding compare_entries_numeric[OF n] compare_entries_numeric[OF n(2,1)]
    using n by (cases d) (auto simp: numeric_def)
next
  fix a b c assume "a \<in> A" "b \<in> A" "c \<in> A"
    and le: "compare_entries rt (k, d) a b \<le> 0" "compare_entries rt (k, d) b c \<le> 0"
  with assms have n: "numeric k a" "numeric k b" "numeric k c" by blast+
  from le show "compare_entries rt (k, d) a c \<le> 0"
    unfolding compare_entries_numeric[OF n(1,2)] compare_entries_numeric[OF n(2,3)]
      compare_entries_numeric[OF n(1,3)]
    using n by (cases d) (auto simp: numeric_def split: if_splits)
qed

text \<open>
  C4, as stated: for every call with several sort keys the last key is the dominant
  order of the returned entries. Here the last key is \<^verbatim>\<open>v\<close>, which holds 2, 10 and the
  string \<^verbatim>\<open>1a\<close> in the three entries: numbers are compared as numbers and a number with
  a string as strings, so 2 comes before 10, 10 before \<^verbatim>\<open>1a\<close> and \<^verbatim>\<open>1a\<close> before 2. The
  call returns the three entries, and no arrangement of them is sorted by the last key.
\<close>

theorem getEntries_cyclic_comparator_counterexample:
  "map_sum (\<lambda>e. e) (set \<circ> entries)
     (getEntries example_api example_runtime mixed_fs (Name ''posts'')
        (no_options \<lparr> o_sort := Some [(''title'', Asc), (''v'', Asc)] \<rparr>))
     = Inr {mixed_2, mixed_10, mixed_1a} \<and>
   compare_entries example_runtime (''v'', Asc) mixed_2 mixed_10 < 0 \<and>
   compare_entries example_runtime (''v'', Asc) mixed_10 mixed_1a < 0 \<and>
   compare_entries example_runtime (''v'', Asc) mixed_1a mixed_2 < 0 \<and>
   \<not> sorted_wrt (\<lambda>a b. compare_entries example_runtime (''v'', Asc) a b \<le> 0) [mixed_2, mixed_10, mixed_1a] \<and>
   \<not> sorted_wrt (\<lambda>a b. compare_entries example_runtime (''v'', Asc) a b \<le> 0) [mixed_2, mixed_1a, mixed_10] \<and>
   \<not> sorted_wrt (\<lambda>a b. compare_entries example_runtime (''v'', Asc) a b \<le> 0) [mixed_10, mixed_2, mixed_1a] \<and>
   \<not> sorted_wrt (\<lambda>a b. compare_entries example_runtime (''v'', Asc) a b \<le> 0) [mixed_10, mixed_1a, mixed_2] \<and>
   \<not> sorted_wrt (\<lambda>a b. compare_entries example_runtime (''v'', Asc) a b \<le> 0) [mixed_1a, mixed_2, mixed_10] \<and>
   \<not> sorted_wrt (\<lambda>a b. compare_entries example_runtime (''v'', Asc) a b \<le> 0) [mixed_1a, mixed_10, mixed_2]"
proof -
  have run: "getEntries example_api example_runtime mixed_fs (Name ''posts'')
        (no_options \<lparr> o_sort := Some [(''title'', Asc), (''v'', Asc)] \<rparr>)
     = Inr \<lparr> entries = [mixed_2, mixed_10, mixed_1a], limit = 1000, offset = 0, count = None \<rparr>"
    by (simp add: sort_eval mixed_fs_def mixed_2_def mixed_10_def mixed_1a_def example_localeCompare_def
        show_int_def show_nat.simps[of 2] show_nat.simps[of 10] show_nat.simps[of 1] show_nat.simps[of "Suc 0"] digit_char_def)
  have c: "compare_entries example_runtime (''v'', Asc) mixed_2 mixed_10 = - 8"
    "compare_entries example_runtime (''v'', Asc) mixed_10 mixed_2 = 8"
    "compare_entries example_runtime (''v'', Asc) mixed_10 mixed_1a = - 1"
    "compare_entries example_runtime (''v'', Asc) mixed_1a mixed_10 = 1"
    "compare_entries example_runtime (''v'', Asc) mixed_1a mixed_2 = - 1"
    "compare_entries example_runtime (''v'', Asc) mixed_2 mixed_1a = 1"
    by (simp_all add: compare_entries_def example_runtime_def mixed_2_def mixed_10_def mixed_1a_def
        string_compare_def example_localeCompare_def show_int_def show_nat.simps[of 2]
        show_nat.simps[of 10] show_nat.simps[of 1] show_nat.simps[of "Suc 0"] digit_char_def)
  have s: "set [mixed_2, mixed_10, mixed_1a] = {mixed_2, mixed_10, mixed_1a}" by simp
  show ?thesis by (simp add: run c)
qed


text \<open>
  C4, amended: the sort loop of \<^verbatim>\<open>getEntries\<close> runs one stable sort per key, in the
  order the keys are given. Where the comparator of each key orders the returned
  entries consistently, the returned entries (those that are not \<^verbatim>\<open>undefined\<close>) are
  therefore in the lexicographic order in which the last key is the most significant
  and each earlier key orders only the entries that tie on all the later ones; in
  particular they are sorted by the last key.
\<close>

theorem getEntries_sort_dominance:
  assumes "getEntries api rt fs c opts = Inr r"
    and "o_sort opts = Some ks" and "ks \<noteq> []"
    and "\<forall>k\<in>set ks. consistent_on (compare_entries rt k) (set (entries r))"
  shows "sorted_wrt (\<lambda>a b. lex_cmp (map (compare_entries rt) (rev ks)) a b \<le> 0)
           (filter (\<lambda>e. e \<noteq> JUndefined) (entries r)) \<and>
         sorted_wrt (\<lambda>a b. compare_entries rt (last ks) a b \<le> 0)
           (filter (\<lambda>e. e \<noteq> JUndefined) (entries r))"
proof -
  let ?D = "\<lambda>es. filter (\<lambda>e. e \<noteq> JUndefined) es"
  let ?cmps = "map (compare_entries rt) ks"
  let ?lex = "lex_cmp (map (compare_entries rt) (rev ks))"
  from getEntries_sorted_page[OF assms(1-3)] obtain page sorted where
    loop: "sort_loop rt ks page = Inr sorted" and rel: "list_all2 same_fields sorted (entries r)"
    by blast
  from sort_loop_passes[OF loop assms(3)]
  have sorted: "sorted = foldl (\<lambda>es c. stable_sort c es) (?D page) ?cmps @ filter (\<lambda>e. e = JUndefined) page" .
  have cons: "consistent_on (compare_entries rt k) (set (?D page))" if k: "k \<in> set ks" for k
  proof (rule consistent_on_transfer[where R = same_fields and B = "set (entries r)"])
    show "consistent_on (compare_entries rt k) (set (entries r))" using assms(4) k by blast
  next
    fix a assume "a \<in> set (?D page)"
    then have "a \<in> set sorted" by (simp add: sorted set_sort_passes)
    with rel show "\<exists>a'\<in>set (entries r). same_fields a a'" by (rule list_all2_preimage)
  next
    fix a a' b b' assume "same_fields a a'" "same_fields b b'"
    then show "compare_entries rt k a b = compare_entries rt k a' b'"
      by (simp add: compare_entries_same_fields)
  qed
  then have all: "\<forall>c\<in>set ?cmps. consistent_on c (set (?D page))" by auto
  have passes: "foldl (\<lambda>es c. stable_sort c es) (?D page) ?cmps = stable_sort ?lex (?D page)"
    using sort_passes[OF all] by (simp add: rev_map)
  have "consistent_on ?lex (set (?D page))"
    using cons by (intro consistent_on_lex_cmp) auto
  then have s1: "sorted_wrt (\<lambda>a b. ?lex a b \<le> 0) (stable_sort ?lex (?D page))"
    by (rule sorted_stable_sort)
  have "?D sorted = stable_sort ?lex (?D page)"
    unfolding sorted passes by (rule filter_defined_sorted)
  moreover have "list_all2 same_fields (?D sorted) (?D (entries r))"
    using rel by (rule list_all2_filter) (simp add: same_fields_def)
  ultimately have rel': "list_all2 same_fields (stable_sort ?lex (?D page)) (?D (entries r))" by simp
  have lex: "sorted_wrt (\<lambda>a b. ?lex a b \<le> 0) (?D (entries r))"
    using rel' s1 subset_UNIV by (rule sorted_wrt_transfer) (simp add: lex_cmp_same_fields)
  from assms(3) have "rev ks = last ks # rev (butlast ks)"
    by (metis append_butlast_last_id rev.simps(2) rev_append rev_rev_ident append_Nil)
  then have "\<And>a b. ?lex a b \<le> 0 \<Longrightarrow> compare_entries rt (last ks) a b \<le> 0"
    using lex_cmp_le_major[of "compare_entries rt (last ks)"] by simp
  with lex have "sorted_wrt (\<lambda>a b. compare_entries rt (last ks) a b \<le> 0) (?D (entries r))"
    by (rule sorted_wrt_mono_rel[rotated]) simp
  with lex show ?thesis by simp
qed


theorem getEntries_sort_dominance_witness:
  "getEntries example_api example_runtime example_fs (Name ''posts'')
     (no_options \<lparr> o_sort := Some [(''createdAt'', Asc), (''rank'', Asc)] \<rparr>)
     = Inr \<lparr> entries = [post_c, post_b, post_a], limit = 1000, offset = 0, count = None \<rparr> \<and>
   consistent_on (compare_entries example_runtime (''createdAt'', Asc)) {post_a, post_b, post_c} \<and>
   consistent_on (compare_entries example_runtime (''rank'', Asc)) {post_a, post_b, post_c} \<and>
   sorted_wrt (\<lambda>a b. lex_cmp [compare_entries example_runtime (''rank'', Asc),
                               compare_entries example_runtime (''createdAt'', Asc)] a b \<le> 0)
     [post_c, post_b, post_a] \<and>
   sorted_wrt (\<lambda>a b. compare_entries example_runtime (''rank'', Asc) a b \<le> 0) [post_c, post_b, post_a]"
proof -
  let ?r = "\<lparr> entries = [post_c, post_b, post_a], limit = 1000, offset = 0, count = None \<rparr>"
  have run: "getEntries example_api example_runtime example_fs (Name ''posts'')
     (no_options \<lparr> o_sort := Some [(''createdAt'', Asc), (''rank'', Asc)] \<rparr>) = Inr ?r"
    by (simp add: sort_eval)
  have c1: "consistent_on (compare_entries example_runtime (''createdAt'', Asc)) {post_a, post_b, post_c}"
    by (simp add: consistent_on_def compare_entries_def example_runtime_def post_a_def post_b_def post_c_def)
  have c2: "consistent_on (compare_entries example_runtime (''rank'', Asc)) {post_a, post_b, post_c}"
    by (simp add: consistent_on_def compare_entries_def example_runtime_def post_a_def post_b_def post_c_def)
  have ne: "post_a \<noteq> JUndefined" "post_b \<noteq> JUndefined" "post_c \<noteq> JUndefined"
    by (simp_all add: post_a_def post_b_def post_c_def)
  have s: "set (entries ?r) = {post_a, post_b, post_c}" by auto
  have "\<forall>k\<in>set [(''createdAt'', Asc), (''rank'', Asc)].
          consistent_on (compare_entries example_runtime k) (set (entries ?r))"
    unfolding s using c1 c2 by simp
  from getEntries_sort_dominance[OF run _ _ this]
  have "sorted_wrt (\<lambda>a b. lex_cmp [compare_entries example_runtime (''rank'', Asc),
                               compare_entries example_runtime (''createdAt'', Asc)] a b \<le> 0)
          [post_c, post_b, post_a] \<and>
        sorted_wrt (\<lambda>a b. compare_entries example_runtime (''rank'', Asc) a b \<le> 0) [post_c, post_b, post_a]"
    using ne by (simp add: no_options_def)
  then show ?thesis using run c1 c2 by simp
qed


section \<open>Dated sort fields\<close>

lemma time_of_nullish: "nullish v \<Longrightarrow> time_of rt v = None"
  by (cases v) (simp_all add: time_of_def)

lemma time_of_Some: "time_of rt v = Some t \<Longrightarrow> \<exists>s. v = JStr s \<and> Date_getTime rt s = Some t"
  by (cases v) (simp_all add: time_of_def)

lemma compare_entries_dated:
  assumes "dated rt k a" and "dated rt k b"
  shows "(compare_entries rt (k, d) a b \<le> 0) = chrono rt d k a b"
proof (cases "nullish (get_prop a k)")
  case na: True
  then have ta: "time_of rt (get_prop a k) = None" by (rule time_of_nullish)
  show ?thesis
  proof (cases "nullish (get_prop b k)")
    case True
    with na ta time_of_nullish[OF True, of rt] show ?thesis
      by (cases d) (simp_all add: compare_entries_def chrono_def)
  next
    case False
    with assms(2) obtain tb where "time_of rt (get_prop b k) = Some tb"
      by (auto simp: dated_def)
    with na ta False show ?thesis
      by (cases d) (simp_all add: compare_entries_def chrono_def)
  qed
next
  case nna: False
  with assms(1) obtain ta where ta: "time_of rt (get_prop a k) = Some ta"
    by (auto simp: dated_def)
  from time_of_Some[OF ta] obtain sa where sa: "get_prop a k = JStr sa" "Date_getTime rt sa = Some ta"
    by blast
  show ?thesis
  proof (cases "nullish (get_prop b k)")
    case True
    with nna ta time_of_nullish[OF True, of rt] show ?thesis
      by (cases d) (simp_all add: compare_entries_def chrono_def)
  next
    case False
    with assms(2) obtain tb where tb: "time_of rt (get_prop b k) = Some tb"
      by (auto simp: dated_def)
    from time_of_Some[OF tb] obtain sb where sb: "get_prop b k = JStr sb" "Date_getTime rt sb = Some tb"
      by blast
    from nna False ta tb sa sb show ?thesis
      by (cases d) (simp_all add: compare_entries_def chrono_def)
  qed
qed

lemma chrono_total: "chrono rt d k a b \<or> chrono rt d k b a"
  by (cases d) (auto simp: chrono_def split: option.splits)

lemma chrono_trans: "chrono rt d k a b \<Longrightarrow> chrono rt d k b c \<Longrightarrow> chrono rt d k a c"
  by (cases d) (auto simp: chrono_def split: option.splits)

lemma consistent_on_dated:
  assumes "\<forall>e\<in>A. dated rt k e"
  shows "consistent_on (compare_entries rt (k, d)) A"
  unfolding consistent_on_def
proof (intro conjI ballI impI)
  fix a b assume "a \<in> A" "b \<in> A"
  with assms have "dated rt k a" "dated rt k b" by blast+
  then show "compare_entries rt (k, d) a b \<le> 0 \<or> compare_entries rt (k, d) b a \<le> 0"
    using chrono_total[of rt d k a b] by (simp add: compare_entries_dated)
next
  fix a b c assume "a \<in> A" "b \<in> A" "c \<in> A"
    and le: "compare_entries rt (k, d) a b \<le> 0" "compare_entries rt (k, d) b c \<le> 0"
  with assms have dt: "dated rt k a" "dated rt k b" "dated rt k c" by blast+
  with le have "chrono rt d k a b" "chrono rt d k b c"
    by (simp_all add: compare_entries_dated)
  then have "chrono rt d k a c" by (rule chrono_trans)
  with dt show "compare_entries rt (k, d) a c \<le> 0"
    by (simp add: compare_entries_dated)
qed

lemma same_fields_dated:
  assumes "same_fields e e'" and "dated rt k e'"
  shows "get_prop e k = get_prop e' k"
proof -
  from assms(1) have "get_prop e' k = get_prop e k \<or> (\<exists>x y. get_prop e k = JObj x \<and> get_prop e' k = JObj y)"
    unfolding same_fields_def by blast
  then show ?thesis
  proof
    assume "get_prop e' k = get_prop e k"
    then show ?thesis by simp
  next
    assume "\<exists>x y. get_prop e k = JObj x \<and> get_prop e' k = JObj y"
    then obtain y where "get_prop e' k = JObj y" by blast
    with assms(2) show ?thesis by (simp add: dated_def time_of_def)
  qed
qed

lemma chrono_same_fields:
  assumes "same_fields x x'" and "same_fields y y'" and "dated rt k x'" and "dated rt k y'"
    and "chrono rt d k x y"
  shows "chrono rt d k x' y'"
proof -
  have "get_prop x k = get_prop x' k" "get_prop y k = get_prop y' k"
    using same_fields_dated[OF assms(1,3)] same_fields_dated[OF assms(2,4)] by simp_all
  with assms(5) show ?thesis
    by (cases d) (simp_all add: chrono_def cong: option.case_cong)
qed

section \<open>Sorting by a date\<close>

text \<open>
  C5. Sorted by one key in descending direction, over entries whose value for the key
  is a string that parses as a date or is \<^verbatim>\<open>null\<close> or \<^verbatim>\<open>undefined\<close>, the returned entries
  are in non-increasing chronological order, and an entry without a value is followed
  only by entries without a value. In ascending direction the returned entries (those
  that are not \<^verbatim>\<open>undefined\<close> themselves) are in non-decreasing chronological order
  with the entries without a value first.
\<close>

theorem getEntries_sorted_dates:
  assumes "getEntries api rt fs c opts = Inr r"
    and "o_sort opts = Some [(k, d)]"
    and "\<forall>e\<in>set (entries r). dated rt k e"
  shows "(d = Desc \<longrightarrow>
            sorted_wrt (chrono rt Desc k) (entries r) \<and>
            (\<forall>i j. i < j \<and> j < length (entries r) \<longrightarrow>
               (nullish (get_prop (entries r ! i) k) \<longrightarrow> nullish (get_prop (entries r ! j) k)) \<and>
               (\<forall>ti tj. time_of rt (get_prop (entries r ! i) k) = Some ti \<and>
                        time_of rt (get_prop (entries r ! j) k) = Some tj \<longrightarrow> tj \<le> ti))) \<and>
         (d = Asc \<longrightarrow>
            sorted_wrt (chrono rt Asc k) (filter (\<lambda>e. e \<noteq> JUndefined) (entries r)))"
proof -
  let ?cmp = "compare_entries rt (k, d)"
  let ?D = "filter (\<lambda>e. e \<noteq> JUndefined)"
  let ?U = "filter (\<lambda>e. e = JUndefined)"
  from getEntries_sorted_page[OF assms(1,2)] obtain page sorted where
    loop: "sort_loop rt [(k, d)] page = Inr sorted" and rel: "list_all2 same_fields sorted (entries r)"
    by blast
  from sort_loop_passes[OF loop] have sorted: "sorted = stable_sort ?cmp (?D page) @ ?U page"
    by simp
  have dated_sorted: "dated rt k a" if "a \<in> set sorted" for a
  proof -
    from list_all2_preimage[OF rel that] obtain a' where a': "a' \<in> set (entries r)" "same_fields a a'"
      by blast
    with assms(3) have dt: "dated rt k a'" by blast
    from same_fields_dated[OF a'(2) dt] dt show ?thesis by (simp add: dated_def)
  qed
  then have dD: "\<forall>e\<in>set (?D page). dated rt k e" by (simp add: sorted)
  then have "consistent_on ?cmp (set (?D page))" by (rule consistent_on_dated)
  then have "sorted_wrt (\<lambda>a b. ?cmp a b \<le> 0) (stable_sort ?cmp (?D page))"
    by (rule sorted_stable_sort)
  then have s1: "sorted_wrt (chrono rt d k) (stable_sort ?cmp (?D page))"
  proof (rule sorted_wrt_mono_rel[rotated])
    fix x y assume "x \<in> set (stable_sort ?cmp (?D page))" "y \<in> set (stable_sort ?cmp (?D page))"
      and "?cmp x y \<le> 0"
    with dD show "chrono rt d k x y" by (simp add: compare_entries_dated)
  qed
  have transfer: "sorted_wrt (chrono rt d k) ys"
    if "list_all2 same_fields xs ys" "sorted_wrt (chrono rt d k) xs" "set ys \<subseteq> set (entries r)" for xs ys
    using that
  proof (rule sorted_wrt_transfer)
    fix x y x' y'
    assume "same_fields x x'" "same_fields y y'" "x' \<in> set (entries r)" "y' \<in> set (entries r)"
      "chrono rt d k x y"
    with assms(3) show "chrono rt d k x' y'" by (blast intro: chrono_same_fields)
  qed
  have desc: "sorted_wrt (chrono rt Desc k) (entries r)" if d: "d = Desc"
  proof -
    have last: "chrono rt Desc k x JUndefined" for x
      by (simp add: chrono_def time_of_def)
    have s2: "sorted_wrt (chrono rt Desc k) (?U page)"
      by (rule sorted_wrt_mono_rel[of _ "\<lambda>a b. True"]) (auto simp: last)
    have "sorted_wrt (chrono rt d k) sorted"
      unfolding sorted sorted_wrt_append using s1 s2 d by (auto simp: last)
    with rel have "sorted_wrt (chrono rt d k) (entries r)" by (rule transfer) simp
    with d show ?thesis by simp
  qed
  have asc: "sorted_wrt (chrono rt d k) (?D (entries r))"
  proof -
    have "?D sorted = stable_sort ?cmp (?D page)"
      unfolding sorted by (rule filter_defined_sorted)
    moreover have "list_all2 same_fields (?D sorted) (?D (entries r))"
      using rel by (rule list_all2_filter) (simp add: same_fields_def)
    ultimately have "list_all2 same_fields (stable_sort ?cmp (?D page)) (?D (entries r))" by simp
    then show ?thesis using s1 by (rule transfer) auto
  qed
  have index: "\<forall>i j. i < j \<and> j < length (entries r) \<longrightarrow>
            (nullish (get_prop (entries r ! i) k) \<longrightarrow> nullish (get_prop (entries r ! j) k)) \<and>
            (\<forall>ti tj. time_of rt (get_prop (entries r ! i) k) = Some ti \<and>
                     time_of rt (get_prop (entries r ! j) k) = Some tj \<longrightarrow> tj \<le> ti)"
    if d: "d = Desc"
  proof (intro allI impI)
    fix i j assume ij: "i < j \<and> j < length (entries r)"
    then have c: "chrono rt Desc k (entries r ! i) (entries r ! j)"
      using desc[OF d] by (simp add: sorted_wrt_iff_nth_less)
    from ij assms(3) have dj: "dated rt k (entries r ! j)" by simp
    show "(nullish (get_prop (entries r ! i) k) \<longrightarrow> nullish (get_prop (entries r ! j) k)) \<and>
            (\<forall>ti tj. time_of rt (get_prop (entries r ! i) k) = Some ti \<and>
                     time_of rt (get_prop (entries r ! j) k) = Some tj \<longrightarrow> tj \<le> ti)"
    proof (intro conjI impI allI)
      assume n: "nullish (get_prop (entries r ! i) k)"
      show "nullish (get_prop (entries r ! j) k)"
      proof (rule ccontr)
        assume "\<not> nullish (get_prop (entries r ! j) k)"
        with dj obtain tj where "time_of rt (get_prop (entries r ! j) k) = Some tj"
          by (auto simp: dated_def)
        with c time_of_nullish[OF n, of rt] show False by (simp add: chrono_def)
      qed
    next
      fix ti tj
      assume "time_of rt (get_prop (entries r ! i) k) = Some ti \<and>
              time_of rt (get_prop (entries r ! j) k) = Some tj"
      with c show "tj \<le> ti" by (simp add: chrono_def)
    qed
  qed
  from desc index asc show ?thesis by blast
qed

theorem getEntries_sorted_dates_witness:
  "getEntries example_api example_runtime example_fs (Name ''posts'')
     (no_options \<lparr> o_sort := Some [(''createdAt'', Desc)] \<rparr>)
     = Inr \<lparr> entries = [post_b, post_a, post_c], limit = 1000, offset = 0, count = None \<rparr> \<and>
   dated example_runtime ''createdAt'' post_a \<and>
   dated example_runtime ''createdAt'' post_b \<and>
   dated example_runtime ''createdAt'' post_c \<and>
   sorted_wrt (chrono example_runtime Desc ''createdAt'') [post_b, post_a, post_c] \<and>
   time_of example_runtime (get_prop post_b ''createdAt'') = Some 1709251200000 \<and>
   time_of example_runtime (get_prop post_a ''createdAt'') = Some 1704067200000 \<and>
   nullish (get_prop post_c ''createdAt'')"
proof -
  let ?r = "\<lparr> entries = [post_b, post_a, post_c], limit = 1000, offset = 0, count = None \<rparr>"
  have run: "getEntries example_api example_runtime example_fs (Name ''posts'')
     (no_options \<lparr> o_sort := Some [(''createdAt'', Desc)] \<rparr>) = Inr ?r"
    by (simp add: sort_eval)
  have dt: "dated example_runtime ''createdAt'' post_a" "dated example_runtime ''createdAt'' post_b"
    "dated example_runtime ''createdAt'' post_c"
    by (simp_all add: dated_def time_of_def example_runtime_def post_a_def post_b_def post_c_def)
  have t: "time_of example_runtime (get_prop post_b ''createdAt'') = Some 1709251200000"
    "time_of example_runtime (get_prop post_a ''createdAt'') = Some 1704067200000"
    "nullish (get_prop post_c ''createdAt'')"
    by (simp_all add: time_of_def example_runtime_def post_a_def post_b_def post_c_def)
  have "sorted_wrt (chrono example_runtime Desc ''createdAt'') (entries ?r)"
    using getEntries_sorted_dates[OF run, of "''createdAt''" Desc] dt by (simp add: no_options_def)
  then show ?thesis using run dt t by simp
qed

end
